theory Spec2Isabelle
  imports Main "HOL-Library.Multiset" "HOL-Library.AList" "HOL-Library.Char_ord"
    "HOL-Library.List_Lexorder" "HOL-Library.Product_Lexorder"
begin

section \<open>Tiles and the deck (App.tsx, lines 24-97)\<close>

datatype Suit = Wan | Tiao | Tong | Wind | Dragon

type_synonym TileId = string

text \<open>
  The interface \<open>Tile\<close>. The field \<open>value\<close> is a JavaScript number. The tiles of
  \<open>createDeck\<close> carry the integers 1-9; the model takes a value to be an integer that
  JavaScript holds exactly and prints in plain decimal (a magnitude below 2^53, far from
  the 10^21 at which the exponent form begins). \<open>name\<close> is the display label, kept as
  the bytes of its UTF-8 encoding.
\<close>

record Tile =
  tid :: TileId
  suit :: Suit
  tvalue :: int
  tname :: string

text \<open>
  Template literals print such a number in decimal, and \<open>parseInt\<close> reads that decimal
  back. \<open>digits\<close> is the rendering for a natural number and \<open>show_int\<close> for an integer.
\<close>

definition digit_char :: "nat \<Rightarrow> char" where
  "digit_char d = char_of (48 + d)"

fun digits :: "nat \<Rightarrow> string" where
  "digits n = (if n < 10 then [digit_char n] else digits (n div 10) @ [digit_char (n mod 10)])"

declare digits.simps [simp del]

definition show_int :: "int \<Rightarrow> string" where
  "show_int i = (if i < 0 then CHR ''-'' # digits (nat (- i)) else digits (nat i))"

definition suit_name :: "Suit \<Rightarrow> string" where
  "suit_name s = (case s of Wan \<Rightarrow> ''Wan'' | Tiao \<Rightarrow> ''Tiao'' | Tong \<Rightarrow> ''Tong''
     | Wind \<Rightarrow> ''Wind'' | Dragon \<Rightarrow> ''Dragon'')"

definition SUITS :: "Suit list" where
  "SUITS = [Wan, Tiao, Tong]"

definition WINDS :: "string list" where
  "WINDS = [[CHR 0xE4, CHR 0xB8, CHR 0x9C], [CHR 0xE5, CHR 0x8D, CHR 0x97],
            [CHR 0xE8, CHR 0xA5, CHR 0xBF], [CHR 0xE5, CHR 0x8C, CHR 0x97]]"

definition DRAGONS :: "string list" where
  "DRAGONS = [[CHR 0xE4, CHR 0xB8, CHR 0xAD], [CHR 0xE5, CHR 0x8F, CHR 0x91],
              [CHR 0xE7, CHR 0x99, CHR 0xBD]]"

definition suit_glyph :: "Suit \<Rightarrow> string" where
  "suit_glyph s = (if s = Wan then [CHR 0xE4, CHR 0xB8, CHR 0x87]
                   else if s = Tiao then [CHR 0xE6, CHR 0x9D, CHR 0xA1]
                   else [CHR 0xE7, CHR 0xAD, CHR 0x92])"

text \<open>
  \<open>createDeck\<close> pushes onto \<open>deck\<close> and increments \<open>idCounter\<close>; the pair of both is the
  loop state. \<open>push4\<close> is the innermost loop \<open>for (let i = 0; i < 4; i++)\<close>.
\<close>

definition push_tile :: "Suit \<Rightarrow> int \<Rightarrow> string \<Rightarrow> Tile list \<times> nat \<Rightarrow> Tile list \<times> nat" where
  "push_tile s v nm st =
     (case st of (deck, idCounter) \<Rightarrow>
        (deck @ [\<lparr>tid = ''tile-'' @ digits idCounter, suit = s, tvalue = v, tname = nm\<rparr>],
         idCounter + 1))"

definition push4 :: "Suit \<Rightarrow> int \<Rightarrow> string \<Rightarrow> Tile list \<times> nat \<Rightarrow> Tile list \<times> nat" where
  "push4 s v nm st = foldl (\<lambda>acc i. push_tile s v nm acc) st [0 ..< 4]"

definition push_suit :: "Tile list \<times> nat \<Rightarrow> Suit \<Rightarrow> Tile list \<times> nat" where
  "push_suit st s =
     foldl (\<lambda>acc v. push4 s v (show_int v @ suit_glyph s) acc) st [1 .. 9]"

definition push_honours :: "Suit \<Rightarrow> string list \<Rightarrow> Tile list \<times> nat \<Rightarrow> Tile list \<times> nat" where
  "push_honours s names st =
     foldl (\<lambda>acc (nm, v). push4 s (int v + 1) nm acc) st (zip names [0 ..< length names])"

definition createDeck :: "Tile list" where
  "createDeck = fst (push_honours Dragon DRAGONS (push_honours Wind WINDS
                  (foldl push_suit ([], 0) SUITS)))"

section \<open>Kinds\<close>

type_synonym kind = "Suit \<times> int"

definition kind_of :: "Tile \<Rightarrow> kind" where
  "kind_of t = (suit t, tvalue t)"

definition numeric :: "Suit \<Rightarrow> bool" where
  "numeric s = (s = Wan \<or> s = Tiao \<or> s = Tong)"

text \<open>The value ranges of the data model: 1-9 for the numeric suits, 1-4 for Wind, 1-3 for Dragon.\<close>

definition valid_kind :: "kind \<Rightarrow> bool" where
  "valid_kind k = (case k of (s, v) \<Rightarrow>
     1 \<le> v \<and> v \<le> (if numeric s then 9 else if s = Wind then 4 else 3))"

definition all_kinds :: "kind list" where
  "all_kinds = concat (map (\<lambda>s. map (\<lambda>v. (s, v)) [1 .. 9]) [Wan, Tiao, Tong])
     @ map (\<lambda>v. (Wind, v)) [1 .. 4] @ map (\<lambda>v. (Dragon, v)) [1 .. 3]"

section \<open>Hands, melds and the session state (App.tsx, lines 34-63)\<close>

text \<open>
  An action is one of the four one-character button labels (win, pung, kong, chow);
  \<open>performAction\<close> takes any string, every other string is \<open>OtherAction\<close>.
\<close>

datatype Action = Hu | Pung | Kong | Chow | OtherAction

text \<open>\<open>performAction\<close> stores the action label in a meld's \<open>type\<close> field.\<close>

record Meld =
  mtype :: Action
  tiles :: "Tile list"
  fromPlayer :: "nat option"

record PlayerState =
  pid :: nat
  pname :: string
  isAI :: bool
  hand :: "Tile list"
  melds :: "Meld list"
  discards :: "Tile list"
  score :: int
  isDealer :: bool

datatype Phase = Dealing | Playing | ActionWindow | GameOver

datatype WinType = SelfDraw | Discard

record GameState =
  deck :: "Tile list"
  players :: "PlayerState list"
  currentTurn :: nat
  lastDiscard :: "(Tile \<times> nat) option"
  phase :: Phase
  winner :: "nat option"
  winType :: "WinType option"
  logs :: "string list"
  wallCount :: nat

text \<open>
  The callbacks scheduled with \<open>setTimeout\<close>: the draw of the next seat and the
  replacement draw after a kong.
\<close>

datatype Timer = NextTurnTimer nat | KongDrawTimer nat

text \<open>
  The component state of \<open>App\<close>: \<open>game\<close> (null before the first \<open>initGame\<close>),
  \<open>pendingActions\<close> as pairs (player, actions), and the pending timers.
\<close>

record AppState =
  game :: "GameState option"
  pendingActions :: "(nat \<times> Action list) list"
  timers :: "Timer list"

section \<open>Shuffle, sorting, same kind (App.tsx, lines 99-117)\<close>

definition swap :: "nat \<Rightarrow> nat \<Rightarrow> 'a list \<Rightarrow> 'a list" where
  "swap i j a = a[i := a ! j, j := a ! i]"

text \<open>
  \<open>rnd i\<close> stands for the random draw of iteration \<open>i\<close>;
  \<open>Math.floor(Math.random() * (i + 1))\<close> is some index between 0 and \<open>i\<close>.
\<close>

definition shuffle :: "(nat \<Rightarrow> nat) \<Rightarrow> 'a list \<Rightarrow> 'a list" where
  "shuffle rnd array = foldl (\<lambda>a i. swap i (rnd i mod (i + 1)) a) array (rev [1 ..< length array])"

definition suitOrder :: "Suit \<Rightarrow> nat" where
  "suitOrder s = (case s of Wan \<Rightarrow> 0 | Tong \<Rightarrow> 1 | Tiao \<Rightarrow> 2 | Wind \<Rightarrow> 3 | Dragon \<Rightarrow> 4)"

text \<open>
  The comparator orders by \<open>suitOrder\<close>, then by value; \<open>Array.prototype.sort\<close> is
  stable, as \<open>sort_key\<close> is.
\<close>

definition sortHand :: "Tile list \<Rightarrow> Tile list" where
  "sortHand h = sort_key (\<lambda>t. (suitOrder (suit t), tvalue t)) h"

definition isSameTile :: "Tile \<Rightarrow> Tile \<Rightarrow> bool" where
  "isSameTile a b = (suit a = suit b \<and> tvalue a = tvalue b)"

section \<open>Win detection (App.tsx, lines 119-171)\<close>

text \<open>
  \<open>counts\<close> is an object keyed by the string \<open>suit-value\<close>. The key is kept as the
  pair it is printed from (\<open>key_str\<close> is injective, lemma \<open>key_str_inj\<close>), in insertion
  order; a missing key reads as \<open>undefined\<close>, which \<open>|| 0\<close> and \<open>> 0\<close> treat as 0.
\<close>

type_synonym counts = "(kind \<times> nat) list"

definition key_str :: "kind \<Rightarrow> string" where
  "key_str k = (case k of (s, v) \<Rightarrow> suit_name s @ ''-'' @ show_int v)"

definition cget :: "counts \<Rightarrow> kind \<Rightarrow> nat" where
  "cget c k = (case map_of c k of None \<Rightarrow> 0 | Some n \<Rightarrow> n)"

definition cput :: "counts \<Rightarrow> kind \<Rightarrow> nat \<Rightarrow> counts" where
  "cput c k n = AList.update k n c"

definition tally :: "Tile list \<Rightarrow> counts" where
  "tally ts = foldl (\<lambda>c t. cput c (kind_of t) (cget c (kind_of t) + 1)) [] ts"

text \<open>
  \<open>firstKey.split('-')\<close> destructured into \<open>[suit, valStr]\<close>, then \<open>parseInt(valStr)\<close>:
  for a negative value the key has two dashes, \<open>valStr\<close> is empty and the result is NaN
  (None), for which \<open>val <= 7\<close> is false.
\<close>

definition parseInt_value :: "int \<Rightarrow> int option" where
  "parseInt_value v = (if v < 0 then None else Some v)"

text \<open>\<open>Object.keys(remainingCounts).filter(k => remainingCounts[k] > 0).sort()\<close>\<close>

definition positive_keys :: "counts \<Rightarrow> kind list" where
  "positive_keys c = sort_key key_str (filter (\<lambda>k. cget c k > 0) (map fst c))"

definition total :: "counts \<Rightarrow> nat" where
  "total c = sum_list (map snd c)"

lemma total_cput: "k \<in> fst ` set c \<Longrightarrow> total (cput c k n) + cget c k = total c + n"
  unfolding total_def cput_def cget_def
  by (induction c) auto

lemma cget_pos_in: "cget c k > 0 \<Longrightarrow> k \<in> fst ` set c"
  unfolding cget_def by (auto split: option.splits dest: map_of_SomeD simp: rev_image_eqI)

lemma cget_cput: "cget (cput c k n) k' = (if k' = k then n else cget c k')"
  unfolding cget_def cput_def by (simp add: update_conv')

lemma keys_cput: "fst ` set (cput c k n) = insert k (fst ` set c)"
  unfolding cput_def by (induction c) auto

lemma total_cput_dec:
  assumes "0 < cget c k" and "d \<le> cget c k"
  shows "total (cput c k (cget c k - d)) + d = total c"
  using total_cput[OF cget_pos_in[OF assms(1)], of "cget c k - d"] assms(2) by arith

lemma hd_positive_keys: "positive_keys c \<noteq> [] \<Longrightarrow> cget c (hd (positive_keys c)) > 0"
proof -
  assume "positive_keys c \<noteq> []"
  then have "hd (positive_keys c) \<in> set (positive_keys c)" by simp
  then show ?thesis by (simp add: positive_keys_def)
qed

text \<open>
  The inner function \<open>checkStandard\<close>. The counts are never decremented below zero (each
  subtraction is guarded), so they are naturals; \<open>meldsNeeded\<close> is an integer and is only
  compared with 0 when no tile is left.
\<close>

function checkStandard :: "counts \<Rightarrow> int \<Rightarrow> bool" where
  "checkStandard remainingCounts meldsNeeded =
     (let keys = positive_keys remainingCounts in
      if keys = [] then meldsNeeded = 0
      else
        let firstKey = hd keys in
        if (if cget remainingCounts firstKey \<ge> 3
            then checkStandard (cput remainingCounts firstKey (cget remainingCounts firstKey - 3))
                   (meldsNeeded - 1)
            else False)
        then True
        else
          (case firstKey of (s, v) \<Rightarrow>
             (case parseInt_value v of None \<Rightarrow> False
              | Some val \<Rightarrow>
                  if numeric s \<and> val \<le> 7 then
                    let key2 = (s, val + 1); key3 = (s, val + 2) in
                    if cget remainingCounts key2 > 0 \<and> cget remainingCounts key3 > 0 then
                      checkStandard
                        (cput (cput (cput remainingCounts firstKey (cget remainingCounts firstKey - 1))
                           key2 (cget remainingCounts key2 - 1)) key3 (cget remainingCounts key3 - 1))
                        (meldsNeeded - 1)
                    else False
                  else False)))"
  by pat_completeness auto
termination
proof (relation "measure (\<lambda>(c, m). total c)", goal_cases)
  case 1 show ?case by simp
next
  case (2 rc m keys firstKey)
  then have pos: "cget rc firstKey > 0" using hd_positive_keys by auto
  from 2 have "3 \<le> cget rc firstKey" by simp
  from total_cput_dec[OF pos this] show ?case by simp
next
  case (3 rc m keys firstKey s v val key2 key3)
  then have pos: "cget rc firstKey > 0" using hd_positive_keys by auto
  from 3 have p2: "cget rc key2 > 0" and p3: "cget rc key3 > 0" by auto
  from 3 have fk: "firstKey = (s, val)" by (auto simp: parseInt_value_def split: if_splits)
  from 3 have k23: "key2 = (s, val + 1)" "key3 = (s, val + 2)" by simp_all
  from fk k23 have ne: "key2 \<noteq> firstKey" "key3 \<noteq> firstKey" "key3 \<noteq> key2" by simp_all
  let ?c1 = "cput rc firstKey (cget rc firstKey - 1)"
  let ?c2 = "cput ?c1 key2 (cget rc key2 - 1)"
  let ?c3 = "cput ?c2 key3 (cget rc key3 - 1)"
  have t1: "total ?c1 + 1 = total rc" using total_cput_dec[OF pos, of 1] pos by simp
  have g2: "cget ?c1 key2 = cget rc key2" using ne by (simp add: cget_cput)
  have t2: "total ?c2 + 1 = total ?c1" using total_cput_dec[of ?c1 key2 1] p2 unfolding g2 by simp
  have g3: "cget ?c2 key3 = cget rc key3" using ne by (simp add: cget_cput)
  have t3: "total ?c3 + 1 = total ?c2" using total_cput_dec[of ?c2 key3 1] p3 unfolding g3 by simp
  have "total ?c3 < total rc" using t1 t2 t3 by arith
  then show ?case by simp
qed

declare checkStandard.simps [simp del]

text \<open>
  \<open>canHu\<close>: the loop over \<open>Object.keys(counts)\<close> returns true at the first pair whose
  remainder decomposes. The parameter \<open>melds\<close> is not read.
\<close>

definition canHu :: "Tile list \<Rightarrow> Meld list \<Rightarrow> bool" where
  "canHu hand_tiles meld_list =
     (let allTiles = hand_tiles in
      if length allTiles mod 3 \<noteq> 2 then False
      else
        let counts = tally allTiles in
        list_ex (\<lambda>key. cget counts key \<ge> 2 \<and>
                   checkStandard (cput counts key (cget counts key - 2))
                     ((int (length allTiles) - 2) div 3))
          (map fst counts))"

section \<open>Session start (App.tsx, lines 385-416)\<close>

definition txt_start :: string where
  "txt_start =
     [CHR 0xE6, CHR 0xB8, CHR 0xB8, CHR 0xE6, CHR 0x88, CHR 0x8F, CHR 0xE5, CHR 0xBC,
      CHR 0x80, CHR 0xE5, CHR 0xA7, CHR 0x8B, CHR 0xEF, CHR 0xBC, CHR 0x8C, CHR 0xE4,
      CHR 0xBD, CHR 0xA0, CHR 0xE6, CHR 0x98, CHR 0xAF, CHR 0xE5, CHR 0xBA, CHR 0x84,
      CHR 0xE5, CHR 0xAE, CHR 0xB6, CHR 0xE3, CHR 0x80, CHR 0x82]"

definition txt_you :: string where
  "txt_you = [CHR 0xE4, CHR 0xBD, CHR 0xA0]"

definition initialPlayers :: "PlayerState list" where
  "initialPlayers =
    [\<lparr>pid = 0, pname = txt_you, isAI = False, hand = [], melds = [], discards = [],
      score = 100, isDealer = True\<rparr>,
     \<lparr>pid = 1, pname = ''AI '' @ [CHR 0xE4, CHR 0xB8, CHR 0x9C], isAI = True, hand = [], melds = [],
      discards = [], score = 100, isDealer = False\<rparr>,
     \<lparr>pid = 2, pname = ''AI '' @ [CHR 0xE5, CHR 0x8D, CHR 0x97], isAI = True, hand = [], melds = [],
      discards = [], score = 100, isDealer = False\<rparr>,
     \<lparr>pid = 3, pname = ''AI '' @ [CHR 0xE8, CHR 0xA5, CHR 0xBF], isAI = True, hand = [], melds = [],
      discards = [], score = 100, isDealer = False\<rparr>]"

text \<open>
  \<open>p.hand.push(deck.pop()!)\<close> for the player at index \<open>j\<close>. The deck dealt from has 136
  tiles and 53 are popped, so \<open>pop\<close> never meets an empty deck here.
\<close>

definition dealOne :: "Tile list \<times> PlayerState list \<Rightarrow> nat \<Rightarrow> Tile list \<times> PlayerState list" where
  "dealOne st j = (case st of (d, ps) \<Rightarrow>
     (butlast d, ps[j := (ps ! j)\<lparr>hand := hand (ps ! j) @ [last d]\<rparr>]))"

definition dealRound :: "Tile list \<times> PlayerState list \<Rightarrow> Tile list \<times> PlayerState list" where
  "dealRound st = foldl dealOne st [0 ..< length (snd st)]"

definition initGame :: "(nat \<Rightarrow> nat) \<Rightarrow> AppState" where
  "initGame rnd =
     (let deck0 = shuffle rnd createDeck;
          dealt = foldl (\<lambda>st i. dealRound st) (deck0, initialPlayers) [0 ..< 13];
          dealt14 = dealOne dealt 0;
          newDeck = fst dealt14;
          newPlayers = map (\<lambda>p. p\<lparr>hand := sortHand (hand p)\<rparr>) (snd dealt14)
      in \<lparr>game = Some \<lparr>deck = newDeck, players = newPlayers, currentTurn = 0,
             lastDiscard = None, phase = Playing, winner = None, winType = None,
             logs = [txt_start], wallCount = length newDeck\<rparr>,
          pendingActions = [], timers = []\<rparr>)"

section \<open>Game actions (App.tsx, lines 424-609)\<close>

definition txt_discarded :: string where
  "txt_discarded =
     [CHR 0x20, CHR 0xE6, CHR 0x89, CHR 0x93, CHR 0xE5, CHR 0x87, CHR 0xBA, CHR 0xE4,
      CHR 0xBA, CHR 0x86, CHR 0x20]"

definition txt_wall_empty :: string where
  "txt_wall_empty =
     [CHR 0xE6, CHR 0xB5, CHR 0x81, CHR 0xE5, CHR 0xB1, CHR 0x80, CHR 0xEF, CHR 0xBC,
      CHR 0x81, CHR 0xE7, CHR 0x89, CHR 0x8C, CHR 0xE5, CHR 0xA2, CHR 0x99, CHR 0xE5,
      CHR 0xB7, CHR 0xB2, CHR 0xE7, CHR 0xA9, CHR 0xBA, CHR 0xE3, CHR 0x80, CHR 0x82]"

definition txt_won :: string where
  "txt_won =
     [CHR 0x20, CHR 0xE8, CHR 0x83, CHR 0xA1, CHR 0xE7, CHR 0x89, CHR 0x8C, CHR 0xE4,
      CHR 0xBA, CHR 0x86, CHR 0xEF, CHR 0xBC, CHR 0x81, CHR 0xE7, CHR 0x82, CHR 0xB9,
      CHR 0xE7, CHR 0x82, CHR 0xAE, CHR 0xE8, CHR 0x80, CHR 0x85, CHR 0xEF, CHR 0xBC, CHR 0x9A]"

definition txt_self_draw :: string where
  "txt_self_draw =
     [CHR 0x20, CHR 0xE8, CHR 0x87, CHR 0xAA, CHR 0xE6, CHR 0x91, CHR 0xB8, CHR 0xE8,
      CHR 0x83, CHR 0xA1, CHR 0xE7, CHR 0x89, CHR 0x8C, CHR 0xEF, CHR 0xBC, CHR 0x81]"

definition txt_you_self_draw :: string where
  "txt_you_self_draw =
     [CHR 0xE4, CHR 0xBD, CHR 0xA0, CHR 0xE8, CHR 0x87, CHR 0xAA, CHR 0xE6, CHR 0x91,
      CHR 0xB8, CHR 0xE8, CHR 0x83, CHR 0xA1, CHR 0xE7, CHR 0x89, CHR 0x8C, CHR 0xE4,
      CHR 0xBA, CHR 0x86, CHR 0xEF, CHR 0xBC, CHR 0x81]"

definition action_text :: "Action \<Rightarrow> string" where
  "action_text a = (case a of Hu \<Rightarrow> [CHR 0xE8, CHR 0x83, CHR 0xA1]
     | Pung \<Rightarrow> [CHR 0xE7, CHR 0xA2, CHR 0xB0]
     | Kong \<Rightarrow> [CHR 0xE6, CHR 0x9D, CHR 0xA0]
     | Chow \<Rightarrow> [CHR 0xE5, CHR 0x90, CHR 0x83]
     | OtherAction \<Rightarrow> [])"

definition addLog :: "string \<Rightarrow> GameState \<Rightarrow> GameState" where
  "addLog msg prev = prev\<lparr>logs := take 50 (msg # logs prev)\<rparr>"

text \<open>\<open>findIndex\<close> returns -1 (None) when no element satisfies the predicate.\<close>

fun findIndex :: "('a \<Rightarrow> bool) \<Rightarrow> 'a list \<Rightarrow> nat option" where
  "findIndex P [] = None"
| "findIndex P (x # xs) = (if P x then Some 0 else map_option Suc (findIndex P xs))"

text \<open>\<open>splice(i, 1)\<close> on an index inside the array.\<close>

definition splice1 :: "nat \<Rightarrow> 'a list \<Rightarrow> 'a list" where
  "splice1 i xs = take i xs @ drop (Suc i) xs"

text \<open>The closure \<open>has\<close> of \<open>checkResponseActions\<close>, and the same test in \<open>performAction\<close>.\<close>

definition has_value :: "Tile list \<Rightarrow> Suit \<Rightarrow> int \<Rightarrow> bool" where
  "has_value h s v = list_ex (\<lambda>t. suit t = s \<and> tvalue t = v) h"

text \<open>The body of the \<open>forEach\<close> for a player other than the discarder: the list \<open>possible\<close>.\<close>

definition possibleActions :: "PlayerState \<Rightarrow> Tile \<Rightarrow> nat \<Rightarrow> Action list" where
  "possibleActions p tile from_player =
     (let sameCount = length (filter (\<lambda>t. isSameTile t tile) (hand p));
          has = has_value (hand p) (suit tile)
      in (if canHu (hand p @ [tile]) (melds p) then [Hu] else [])
       @ (if sameCount \<ge> 2 then [Pung] else [])
       @ (if sameCount = 3 then [Kong] else [])
       @ (if (from_player + 1) mod 4 = pid p \<and> numeric (suit tile) then
            (if has (tvalue tile - 2) \<and> has (tvalue tile - 1) then [Chow] else [])
          @ (if has (tvalue tile - 1) \<and> has (tvalue tile + 1) then [Chow] else [])
          @ (if has (tvalue tile + 1) \<and> has (tvalue tile + 2) then [Chow] else [])
          else []))"

definition responseActions :: "PlayerState list \<Rightarrow> Tile \<Rightarrow> nat \<Rightarrow> (nat \<times> Action list) list" where
  "responseActions ps tile from_player =
     concat (map (\<lambda>p. if pid p = from_player then []
                       else (let possible = possibleActions p tile from_player
                             in if length possible > 0 then [(pid p, possible)] else [])) ps)"

text \<open>
  \<open>checkResponseActions\<close> reads the players of the render in which the discard was made
  (\<open>g\<close>); with no claim it schedules the next seat's draw, otherwise it sets
  \<open>pendingActions\<close>.

  \<open>handleDiscard\<close> is called from the tiles of seat 0's hand, which are rendered anew
  with every state, and from the AI turn timer, which is cleared whenever the phase, the
  turn or the pending actions change. The one update that leaves these three alone, the
  replacement draw after a kong, writes the hand into the player object that the earlier
  render shares. So the render of a discard agrees with the current state on what
  \<open>handleDiscard\<close> reads, and the state alone is its parameter.
\<close>

definition checkResponseActions :: "GameState \<Rightarrow> Tile \<Rightarrow> nat \<Rightarrow> AppState \<Rightarrow> AppState" where
  "checkResponseActions g tile from_player st =
     (let actions = responseActions (players g) tile from_player
      in if length actions = 0
         then st\<lparr>timers := timers st @ [NextTurnTimer ((from_player + 1) mod 4)]\<rparr>
         else st\<lparr>pendingActions := actions\<rparr>)"

definition handleDiscard :: "AppState \<Rightarrow> nat \<Rightarrow> TileId \<Rightarrow> AppState" where
  "handleDiscard st playerId tileId =
     (case game st of None \<Rightarrow> st
      | Some g \<Rightarrow>
          if phase g \<noteq> Playing then st
          else
            let player = players g ! playerId in
            (case findIndex (\<lambda>t. tid t = tileId) (hand player) of None \<Rightarrow> st
             | Some tileIndex \<Rightarrow>
                 let tile = hand player ! tileIndex;
                     newHand = splice1 tileIndex (hand player);
                     newPlayers = (players g)[playerId :=
                        player\<lparr>hand := sortHand newHand, discards := discards player @ [tile]\<rparr>];
                     g1 = g\<lparr>players := newPlayers, lastDiscard := Some (tile, playerId),
                            phase := ActionWindow\<rparr>;
                     g2 = addLog (pname player @ txt_discarded @ tname tile) g1
                 in checkResponseActions g tile playerId (st\<lparr>game := Some g2\<rparr>)))"

text \<open>The state update of \<open>nextTurn\<close>, and \<open>nextTurn\<close> itself.\<close>

definition drawFor :: "nat \<Rightarrow> GameState \<Rightarrow> GameState" where
  "drawFor playerId prev =
     (if length (deck prev) = 0
      then prev\<lparr>phase := GameOver, winner := None, logs := txt_wall_empty # logs prev\<rparr>
      else
        let newDeck = butlast (deck prev);
            drawnTile = last (deck prev);
            newPlayers = (players prev)[playerId :=
               (players prev ! playerId)\<lparr>hand :=
                  sortHand (hand (players prev ! playerId) @ [drawnTile])\<rparr>]
        in prev\<lparr>deck := newDeck, players := newPlayers, currentTurn := playerId,
                 phase := Playing, lastDiscard := None, wallCount := length newDeck\<rparr>)"

definition nextTurn :: "AppState \<Rightarrow> nat \<Rightarrow> AppState" where
  "nextTurn st playerId = st\<lparr>game := map_option (drawFor playerId) (game st), pendingActions := []\<rparr>"

text \<open>
  Pung and kong: the indices of the hand tiles of the claimed kind (the first two for a
  pung), spliced out from the highest index down and pushed onto \<open>tilesToMeld\<close>.
\<close>

definition sameIndices :: "Tile list \<Rightarrow> Tile \<Rightarrow> nat list" where
  "sameIndices h tile = filter (\<lambda>i. isSameTile (h ! i) tile) [0 ..< length h]"

definition spliceAll :: "nat list \<Rightarrow> Tile list \<times> Tile list \<Rightarrow> Tile list \<times> Tile list" where
  "spliceAll indices st =
     foldl (\<lambda>acc i. case acc of (tilesToMeld, newHand) \<Rightarrow>
              (tilesToMeld @ [newHand ! i], splice1 i newHand)) st (rev indices)"

text \<open>The closure \<open>findAndRemove\<close> of the chow branch.\<close>

definition findAndRemove :: "Suit \<Rightarrow> int \<Rightarrow> Tile list \<times> Tile list \<Rightarrow> Tile list \<times> Tile list" where
  "findAndRemove s v st = (case st of (tilesToMeld, newHand) \<Rightarrow>
     (case findIndex (\<lambda>t. suit t = s \<and> tvalue t = v) newHand of
        None \<Rightarrow> (tilesToMeld, newHand)
      | Some idx \<Rightarrow> (tilesToMeld @ [newHand ! idx], splice1 idx newHand)))"

definition takeFromHand :: "Action \<Rightarrow> Tile \<Rightarrow> Tile list \<Rightarrow> Tile list \<times> Tile list" where
  "takeFromHand action tile h =
     (if action = Pung then spliceAll (take 2 (sameIndices h tile)) ([tile], h)
      else if action = Kong then spliceAll (sameIndices h tile) ([tile], h)
      else
        let v = tvalue tile; s = suit tile in
        if has_value h s (v - 2) \<and> has_value h s (v - 1)
        then findAndRemove s (v - 1) (findAndRemove s (v - 2) ([tile], h))
        else if has_value h s (v - 1) \<and> has_value h s (v + 1)
        then findAndRemove s (v + 1) (findAndRemove s (v - 1) ([tile], h))
        else findAndRemove s (v + 2) (findAndRemove s (v + 1) ([tile], h)))"

text \<open>
  The updater that \<open>performAction\<close> passes to \<open>setGame\<close>: \<open>tile\<close> and \<open>fromPlayer\<close>
  are captured from the handler's render, \<open>prev\<close> is the state at the time of the update.
\<close>

definition resolveAction :: "Tile \<Rightarrow> nat \<Rightarrow> nat \<Rightarrow> Action \<Rightarrow> GameState \<Rightarrow> GameState" where
  "resolveAction tile from_player playerId action prev =
     (let actor = players prev ! playerId;
          target = players prev ! from_player
      in if action = Hu
         then prev\<lparr>phase := GameOver, winner := Some playerId, winType := Some Discard,
                    logs := (pname actor @ txt_won @ pname target) # logs prev\<rparr>
         else if action = Pung \<or> action = Kong \<or> action = Chow
         then
           let taken = takeFromHand action tile (hand actor);
               tilesToMeld = fst taken;
               newHand = snd taken;
               newPlayers1 = (players prev)[playerId :=
                  actor\<lparr>hand := sortHand newHand,
                         melds := melds actor @
                            [\<lparr>mtype = action, tiles = tilesToMeld,
                              fromPlayer = Some from_player\<rparr>]\<rparr>];
               newPlayers2 = newPlayers1[from_player :=
                  target\<lparr>discards := butlast (discards target)\<rparr>]
           in prev\<lparr>players := newPlayers2, currentTurn := playerId, phase := Playing,
                    lastDiscard := None,
                    logs := (pname actor @ '' '' @ action_text action @ [CHR 0xE4, CHR 0xBA, CHR 0x86, CHR 0x20]
                             @ tname tile) # logs prev\<rparr>
         else prev)"

text \<open>
  A handler belongs to the render that created it. \<open>performAction\<close> tests \<open>game\<close> and
  \<open>game.lastDiscard\<close> of its render and takes the claimed tile and the discarder from
  there; the updater is applied to the state at the time of the call. The two differ when
  a claim button is used after the state has moved on: the buttons sit under
  \<open>AnimatePresence\<close> and stay mounted, with the handlers of their render, while they
  animate out. So the render is a parameter of its own (\<open>render\<close>), next to the state
  \<open>st\<close>; a handler of the current render is \<open>performAction st st\<close>.
\<close>

definition performAction :: "AppState \<Rightarrow> AppState \<Rightarrow> nat \<Rightarrow> Action \<Rightarrow> AppState" where
  "performAction render st playerId action =
     (case game render of None \<Rightarrow> st
      | Some g \<Rightarrow>
          (case lastDiscard g of None \<Rightarrow> st
           | Some (tile, from_player) \<Rightarrow>
               let st1 = st\<lparr>game := map_option (resolveAction tile from_player playerId action)
                                      (game st),
                             pendingActions := []\<rparr>
               in if action = Kong
                  then st1\<lparr>timers := timers st1 @ [KongDrawTimer playerId]\<rparr>
                  else st1))"

text \<open>
  The replacement draw after a kong pops the deck without testing it. On an empty deck
  \<open>pop\<close> gives \<open>undefined\<close>, which is stored in the hand (the sort moves it to the end);
  a hand of tiles cannot hold it, so that outcome is the fault \<open>UndefinedTileDrawn\<close>,
  carrying the rest of the state the update returns.
\<close>

datatype Fault = UndefinedTileDrawn GameState

definition kongReplacementDraw :: "nat \<Rightarrow> GameState \<Rightarrow> Fault + GameState" where
  "kongReplacementDraw playerId prev =
     (let newDeck = butlast (deck prev);
          tiles_of_hand = hand (players prev ! playerId)
      in if deck prev = []
         then Inl (UndefinedTileDrawn
                (prev\<lparr>deck := newDeck,
                       players := (players prev)[playerId :=
                          (players prev ! playerId)\<lparr>hand := sortHand tiles_of_hand\<rparr>],
                       wallCount := length newDeck\<rparr>))
         else Inr (prev\<lparr>deck := newDeck,
                         players := (players prev)[playerId :=
                            (players prev ! playerId)\<lparr>hand :=
                               sortHand (tiles_of_hand @ [last (deck prev)])\<rparr>],
                         wallCount := length newDeck\<rparr>))"

definition fireTimer :: "Timer \<Rightarrow> AppState \<Rightarrow> Fault + AppState" where
  "fireTimer t st =
     (case t of NextTurnTimer p \<Rightarrow> Inr (nextTurn st p)
      | KongDrawTimer p \<Rightarrow>
          (case game st of None \<Rightarrow> Inr st
           | Some g \<Rightarrow>
               (case kongReplacementDraw p g of Inl e \<Rightarrow> Inl e
                | Inr g' \<Rightarrow> Inr (st\<lparr>game := Some g'\<rparr>))))"

section \<open>Passing, self-drawn wins and the AI response (App.tsx, lines 613-675, 802-870)\<close>

text \<open>
  The handler of the pass button (for seat 0) and the pass branch of the AI response:
  the seat is filtered out of the current pending actions and, when the render had a
  single entry, the next seat's draw is scheduled. The scheduled callback reads
  \<open>game.lastDiscard!.player\<close> of the render; where that is null it throws and changes
  nothing, so no timer is recorded then. The pass button is under \<open>AnimatePresence\<close>
  like the claim buttons.
\<close>

definition passAction :: "AppState \<Rightarrow> AppState \<Rightarrow> nat \<Rightarrow> AppState" where
  "passAction render st p =
     (let st1 = st\<lparr>pendingActions := filter (\<lambda>a. fst a \<noteq> p) (pendingActions st)\<rparr>
      in if length (pendingActions render) = 1
         then (case game render of None \<Rightarrow> st1
               | Some g \<Rightarrow>
                   (case lastDiscard g of None \<Rightarrow> st1
                    | Some (tile, from_player) \<Rightarrow>
                        st1\<lparr>timers := timers st1 @ [NextTurnTimer ((from_player + 1) mod 4)]\<rparr>))
         else st1)"

text \<open>
  The timer callback of the AI response effect. The timer is cleared whenever the phase,
  the turn or the pending actions change, so its render agrees with the current state on
  what the callback reads: the pending actions, the players' \<open>isAI\<close> flags and the last
  discard.
\<close>

definition aiResponse :: "AppState \<Rightarrow> AppState" where
  "aiResponse st =
     (case game st of None \<Rightarrow> st
      | Some g \<Rightarrow>
          if phase g \<noteq> ActionWindow then st
          else
            (case filter (\<lambda>a. isAI (players g ! fst a)) (pendingActions st) of
               [] \<Rightarrow> st
             | bestAction # others \<Rightarrow>
                 if Hu \<in> set (snd bestAction) then performAction st st (fst bestAction) Hu
                 else if Kong \<in> set (snd bestAction) then performAction st st (fst bestAction) Kong
                 else if Pung \<in> set (snd bestAction) then performAction st st (fst bestAction) Pung
                 else if Chow \<in> set (snd bestAction) then performAction st st (fst bestAction) Chow
                 else passAction st st (fst bestAction)))"

text \<open>
  The timer callback of the AI turn: a self-drawn win when the hand wins, otherwise a
  discard (a lone wind or dragon first, then a numeric tile without a neighbour, then the
  first tile). \<open>hand[discardIndex]\<close> on an empty hand throws inside the callback, which
  leaves the state as it was.
\<close>

definition aiDiscardIndex :: "Tile list \<Rightarrow> nat" where
  "aiDiscardIndex h =
     (case findIndex (\<lambda>t. (suit t = Wind \<or> suit t = Dragon)
                          \<and> length (filter (\<lambda>x. isSameTile x t) h) = 1) h of
        Some i \<Rightarrow> i
      | None \<Rightarrow>
          (case findIndex (\<lambda>t. if suit t = Wind \<or> suit t = Dragon then False
                                else \<not> list_ex (\<lambda>x. suit x = suit t
                                                     \<and> \<bar>tvalue x - tvalue t\<bar> \<le> 1) h) h of
             Some i \<Rightarrow> i
           | None \<Rightarrow> 0))"

definition aiTurn :: "AppState \<Rightarrow> AppState" where
  "aiTurn st =
     (case game st of None \<Rightarrow> st
      | Some g \<Rightarrow>
          let currentPlayer = players g ! currentTurn g in
          if phase g = Playing \<and> isAI currentPlayer then
            if canHu (hand currentPlayer) (melds currentPlayer)
            then st\<lparr>game := Some (g\<lparr>phase := GameOver, winner := Some (currentTurn g),
                    winType := Some SelfDraw,
                    logs := (pname currentPlayer @ txt_self_draw) # logs g\<rparr>)\<rparr>
            else
              let h = hand currentPlayer; discardIndex = aiDiscardIndex h in
              if discardIndex < length h
              then handleDiscard st (currentTurn g) (tid (h ! discardIndex))
              else st
          else st)"

text \<open>The win button of seat 0, shown when it is seat 0's turn and its hand wins.\<close>

definition humanSelfDraw :: "AppState \<Rightarrow> AppState" where
  "humanSelfDraw st =
     (case game st of None \<Rightarrow> st
      | Some g \<Rightarrow>
          if phase g = Playing \<and> currentTurn g = 0
             \<and> canHu (hand (players g ! 0)) (melds (players g ! 0))
          then st\<lparr>game := Some (g\<lparr>phase := GameOver, winner := Some 0,
                  winType := Some SelfDraw, logs := txt_you_self_draw # logs g\<rparr>)\<rparr>
          else st)"

section \<open>An end-game position\<close>

text \<open>The tiles of the deck in closed form: copy \<open>c\<close> (0-3) of the kind \<open>(s, v)\<close>.\<close>

definition suit_base :: "Suit \<Rightarrow> nat" where
  "suit_base s = (case s of Wan \<Rightarrow> 0 | Tiao \<Rightarrow> 36 | Tong \<Rightarrow> 72 | Wind \<Rightarrow> 108 | Dragon \<Rightarrow> 124)"

definition tileOf :: "Suit \<Rightarrow> int \<Rightarrow> nat \<Rightarrow> Tile" where
  "tileOf s v c =
     \<lparr>tid = ''tile-'' @ digits (suit_base s + 4 * (nat v - 1) + c), suit = s, tvalue = v,
      tname = (if s = Wind then WINDS ! (nat v - 1) else if s = Dragon then DRAGONS ! (nat v - 1)
               else show_int v @ suit_glyph s)\<rparr>"

text \<open>
  A position with the wall exhausted: the 136 tiles are in the four hands and the four
  discard piles, it is seat 3's turn and seat 3 holds 14 tiles, the lowest of them the
  fourth 5 of Wan (\<open>claimed\<close>). Seat 1 holds the other three, seat 2 needs it to win, and
  seat 0, the next seat, can chow it in three ways.
\<close>

definition claimed :: Tile where
  "claimed = tileOf Wan 5 3"

definition hand0 :: "Tile list" where
  "hand0 =
     [tileOf Wan 3 0, tileOf Wan 4 1, tileOf Wan 6 1, tileOf Wan 7 0, tileOf Tong 7 0,
      tileOf Tong 9 0, tileOf Tiao 9 0, tileOf Wind 1 0, tileOf Wind 2 0, tileOf Wind 3 0,
      tileOf Wind 4 0, tileOf Dragon 2 0, tileOf Dragon 3 0]"

definition hand1 :: "Tile list" where
  "hand1 =
     [tileOf Wan 1 0, tileOf Wan 5 0, tileOf Wan 5 1, tileOf Wan 5 2, tileOf Wan 9 0,
      tileOf Tong 4 0, tileOf Tong 5 0, tileOf Tiao 7 0, tileOf Tiao 8 0, tileOf Wind 1 1,
      tileOf Wind 2 1, tileOf Dragon 2 1, tileOf Dragon 3 1]"

definition hand1_after :: "Tile list" where
  "hand1_after =
     [tileOf Wan 1 0, tileOf Wan 9 0, tileOf Tong 4 0, tileOf Tong 5 0, tileOf Tiao 7 0,
      tileOf Tiao 8 0, tileOf Wind 1 1, tileOf Wind 2 1, tileOf Dragon 2 1,
      tileOf Dragon 3 1]"

definition hand2 :: "Tile list" where
  "hand2 =
     [tileOf Wan 4 0, tileOf Wan 6 0, tileOf Tong 1 0, tileOf Tong 2 0, tileOf Tong 3 0,
      tileOf Tiao 1 0, tileOf Tiao 2 0, tileOf Tiao 3 0, tileOf Tiao 4 0, tileOf Tiao 5 0,
      tileOf Tiao 6 0, tileOf Dragon 1 0, tileOf Dragon 1 1]"

definition hand3_after :: "Tile list" where
  "hand3_after =
     [tileOf Wan 8 0, tileOf Wan 9 1, tileOf Tong 5 1, tileOf Tong 6 0, tileOf Tong 8 0,
      tileOf Tong 9 1, tileOf Tiao 7 1, tileOf Tiao 8 1, tileOf Tiao 9 1, tileOf Wind 3 1,
      tileOf Wind 3 2, tileOf Wind 4 1, tileOf Wind 4 2]"

definition hand3 :: "Tile list" where
  "hand3 = claimed # hand3_after"

definition pile0 :: "Tile list" where
  "pile0 =
     [tileOf Wan 1 1, tileOf Wan 1 2, tileOf Wan 1 3, tileOf Wan 2 0, tileOf Wan 2 1,
      tileOf Wan 2 2, tileOf Wan 2 3, tileOf Wan 3 1, tileOf Wan 3 2, tileOf Wan 3 3,
      tileOf Wan 4 2, tileOf Wan 4 3, tileOf Wan 6 2, tileOf Wan 6 3, tileOf Wan 7 1,
      tileOf Wan 7 2, tileOf Wan 7 3, tileOf Wan 8 1, tileOf Wan 8 2, tileOf Wan 8 3,
      tileOf Wan 9 2]"

definition pile1 :: "Tile list" where
  "pile1 =
     [tileOf Wan 9 3, tileOf Tiao 1 1, tileOf Tiao 1 2, tileOf Tiao 1 3, tileOf Tiao 2 1,
      tileOf Tiao 2 2, tileOf Tiao 2 3, tileOf Tiao 3 1, tileOf Tiao 3 2, tileOf Tiao 3 3,
      tileOf Tiao 4 1, tileOf Tiao 4 2, tileOf Tiao 4 3, tileOf Tiao 5 1, tileOf Tiao 5 2,
      tileOf Tiao 5 3, tileOf Tiao 6 1, tileOf Tiao 6 2, tileOf Tiao 6 3, tileOf Tiao 7 2,
      tileOf Tiao 7 3]"

definition pile2 :: "Tile list" where
  "pile2 =
     [tileOf Tiao 8 2, tileOf Tiao 8 3, tileOf Tiao 9 2, tileOf Tiao 9 3, tileOf Tong 1 1,
      tileOf Tong 1 2, tileOf Tong 1 3, tileOf Tong 2 1, tileOf Tong 2 2, tileOf Tong 2 3,
      tileOf Tong 3 1, tileOf Tong 3 2, tileOf Tong 3 3, tileOf Tong 4 1, tileOf Tong 4 2,
      tileOf Tong 4 3, tileOf Tong 5 2, tileOf Tong 5 3, tileOf Tong 6 1, tileOf Tong 6 2,
      tileOf Tong 6 3]"

definition pile3 :: "Tile list" where
  "pile3 =
     [tileOf Tong 7 1, tileOf Tong 7 2, tileOf Tong 7 3, tileOf Tong 8 1, tileOf Tong 8 2,
      tileOf Tong 8 3, tileOf Tong 9 2, tileOf Tong 9 3, tileOf Wind 1 2, tileOf Wind 1 3,
      tileOf Wind 2 2, tileOf Wind 2 3, tileOf Wind 3 3, tileOf Wind 4 3,
      tileOf Dragon 1 2, tileOf Dragon 1 3, tileOf Dragon 2 2, tileOf Dragon 2 3,
      tileOf Dragon 3 2, tileOf Dragon 3 3]"

definition seat :: "nat \<Rightarrow> Tile list \<Rightarrow> Tile list \<Rightarrow> PlayerState" where
  "seat i h d = (initialPlayers ! i)\<lparr>hand := h, discards := d\<rparr>"

definition endgame_game :: GameState where
  "endgame_game =
     \<lparr>deck = [],
      players = [seat 0 hand0 pile0, seat 1 hand1 pile1, seat 2 hand2 pile2, seat 3 hand3 pile3],
      currentTurn = 3, lastDiscard = None, phase = Playing, winner = None, winType = None,
      logs = replicate 50 ''earlier entry'', wallCount = 0\<rparr>"

definition endgame :: AppState where
  "endgame = \<lparr>game = Some endgame_game, pendingActions = [], timers = []\<rparr>"

text \<open>The position after seat 3 has discarded, and the one after seat 1 has taken the kong.\<close>

definition window_game :: GameState where
  "window_game = endgame_game
     \<lparr>players := [seat 0 hand0 pile0, seat 1 hand1 pile1, seat 2 hand2 pile2,
                  seat 3 hand3_after (pile3 @ [claimed])],
      lastDiscard := Some (claimed, 3), phase := ActionWindow,
      logs := (pname (initialPlayers ! 3) @ txt_discarded @ tname claimed)
              # replicate 49 ''earlier entry''\<rparr>"

definition window :: AppState where
  "window = \<lparr>game = Some window_game,
             pendingActions = [(0, [Chow, Chow, Chow]), (1, [Pung, Kong]), (2, [Hu])],
             timers = []\<rparr>"

definition after_kong_game :: GameState where
  "after_kong_game = window_game
     \<lparr>players := [seat 0 hand0 pile0,
                  (seat 1 hand1_after pile1)
                    \<lparr>melds := [\<lparr>mtype = Kong,
                                 tiles = [claimed, tileOf Wan 5 2, tileOf Wan 5 1, tileOf Wan 5 0],
                                 fromPlayer = Some 3\<rparr>]\<rparr>,
                  seat 2 hand2 pile2, seat 3 hand3_after pile3],
      currentTurn := 1, phase := Playing, lastDiscard := None,
      logs := (pname (initialPlayers ! 1) @ '' '' @ action_text Kong
               @ [CHR 0xE4, CHR 0xBA, CHR 0x86, CHR 0x20] @ tname claimed) # logs window_game\<rparr>"

definition after_kong :: AppState where
  "after_kong = \<lparr>game = Some after_kong_game, pendingActions = [], timers = [KongDrawTimer 1]\<rparr>"

text \<open>Seat 0's hand once the chow of the claimed tile has taken the 3 and the 4 of Wan.\<close>

definition hand0_after :: "Tile list" where
  "hand0_after =
     [tileOf Wan 6 1, tileOf Wan 7 0, tileOf Tong 7 0, tileOf Tong 9 0, tileOf Tiao 9 0,
      tileOf Wind 1 0, tileOf Wind 2 0, tileOf Wind 3 0, tileOf Wind 4 0, tileOf Dragon 2 0,
      tileOf Dragon 3 0]"

text \<open>
  The tiles of the position and of the deck by suit, value and copy: the four hands
  followed by the four piles, and the deck in the order of \<open>createDeck\<close>.
\<close>

definition tile3 :: "Suit \<times> int \<times> nat \<Rightarrow> Tile" where
  "tile3 x = (case x of (s, v, c) \<Rightarrow> tileOf s v c)"

definition deck3 :: "(Suit \<times> int \<times> nat) list" where
  "deck3 = concat (map (\<lambda>k. map (\<lambda>c. (fst k, snd k, c)) [0 ..< 4]) all_kinds)"

definition position3 :: "(Suit \<times> int \<times> nat) list" where
  "position3 =
     [(Wan, 3, 0), (Wan, 4, 1), (Wan, 6, 1), (Wan, 7, 0), (Tong, 7, 0), (Tong, 9, 0),
      (Tiao, 9, 0), (Wind, 1, 0), (Wind, 2, 0), (Wind, 3, 0), (Wind, 4, 0), (Dragon, 2,
      0), (Dragon, 3, 0), (Wan, 1, 0), (Wan, 5, 0), (Wan, 5, 1), (Wan, 5, 2), (Wan, 9, 0),
      (Tong, 4, 0), (Tong, 5, 0), (Tiao, 7, 0), (Tiao, 8, 0), (Wind, 1, 1), (Wind, 2, 1),
      (Dragon, 2, 1), (Dragon, 3, 1), (Wan, 4, 0), (Wan, 6, 0), (Tong, 1, 0), (Tong, 2,
      0), (Tong, 3, 0), (Tiao, 1, 0), (Tiao, 2, 0), (Tiao, 3, 0), (Tiao, 4, 0), (Tiao, 5,
      0), (Tiao, 6, 0), (Dragon, 1, 0), (Dragon, 1, 1), (Wan, 5, 3), (Wan, 8, 0), (Wan, 9,
      1), (Tong, 5, 1), (Tong, 6, 0), (Tong, 8, 0), (Tong, 9, 1), (Tiao, 7, 1), (Tiao, 8,
      1), (Tiao, 9, 1), (Wind, 3, 1), (Wind, 3, 2), (Wind, 4, 1), (Wind, 4, 2), (Wan, 1,
      1), (Wan, 1, 2), (Wan, 1, 3), (Wan, 2, 0), (Wan, 2, 1), (Wan, 2, 2), (Wan, 2, 3),
      (Wan, 3, 1), (Wan, 3, 2), (Wan, 3, 3), (Wan, 4, 2), (Wan, 4, 3), (Wan, 6, 2), (Wan,
      6, 3), (Wan, 7, 1), (Wan, 7, 2), (Wan, 7, 3), (Wan, 8, 1), (Wan, 8, 2), (Wan, 8, 3),
      (Wan, 9, 2), (Wan, 9, 3), (Tiao, 1, 1), (Tiao, 1, 2), (Tiao, 1, 3), (Tiao, 2, 1),
      (Tiao, 2, 2), (Tiao, 2, 3), (Tiao, 3, 1), (Tiao, 3, 2), (Tiao, 3, 3), (Tiao, 4, 1),
      (Tiao, 4, 2), (Tiao, 4, 3), (Tiao, 5, 1), (Tiao, 5, 2), (Tiao, 5, 3), (Tiao, 6, 1),
      (Tiao, 6, 2), (Tiao, 6, 3), (Tiao, 7, 2), (Tiao, 7, 3), (Tiao, 8, 2), (Tiao, 8, 3),
      (Tiao, 9, 2), (Tiao, 9, 3), (Tong, 1, 1), (Tong, 1, 2), (Tong, 1, 3), (Tong, 2, 1),
      (Tong, 2, 2), (Tong, 2, 3), (Tong, 3, 1), (Tong, 3, 2), (Tong, 3, 3), (Tong, 4, 1),
      (Tong, 4, 2), (Tong, 4, 3), (Tong, 5, 2), (Tong, 5, 3), (Tong, 6, 1), (Tong, 6, 2),
      (Tong, 6, 3), (Tong, 7, 1), (Tong, 7, 2), (Tong, 7, 3), (Tong, 8, 1), (Tong, 8, 2),
      (Tong, 8, 3), (Tong, 9, 2), (Tong, 9, 3), (Wind, 1, 2), (Wind, 1, 3), (Wind, 2, 2),
      (Wind, 2, 3), (Wind, 3, 3), (Wind, 4, 3), (Dragon, 1, 2), (Dragon, 1, 3), (Dragon,
      2, 2), (Dragon, 2, 3), (Dragon, 3, 2), (Dragon, 3, 3)]"

section \<open>Notions of the specification\<close>



text \<open>
  The three pairs of values that complete a chow of a tile of value \<open>v\<close>, from the lowest
  sequence to the highest, and the pair the chow branch takes from a hand.
\<close>

definition completing_pairs :: "int \<Rightarrow> (int \<times> int) list" where
  "completing_pairs v = [(v - 2, v - 1), (v - 1, v + 1), (v + 1, v + 2)]"

definition chow_choice :: "Tile list \<Rightarrow> Tile \<Rightarrow> int list" where
  "chow_choice h tile =
     (let v = tvalue tile; has = has_value h (suit tile) in
      if has (v - 2) \<and> has (v - 1) then [v - 2, v - 1]
      else if has (v - 1) \<and> has (v + 1) then [v - 1, v + 1]
      else [v + 1, v + 2])"

text \<open>
  The winning shape of a multiset of kinds \<open>M\<close>: one pair plus \<open>(size M - 2) div 3\<close>
  groups, a group being a triplet of one kind or three consecutive values of one numeric
  suit.
\<close>

definition is_pair :: "kind multiset \<Rightarrow> bool" where
  "is_pair g = (\<exists>k. g = {#k, k#})"

definition is_triplet :: "kind multiset \<Rightarrow> bool" where
  "is_triplet g = (\<exists>k. g = {#k, k, k#})"

definition is_sequence :: "kind multiset \<Rightarrow> bool" where
  "is_sequence g = (\<exists>s v. numeric s \<and> g = {#(s, v), (s, v + 1), (s, v + 2)#})"

definition is_group :: "kind multiset \<Rightarrow> bool" where
  "is_group g = (is_triplet g \<or> is_sequence g)"

definition winning_shape :: "kind multiset \<Rightarrow> bool" where
  "winning_shape M = (\<exists>p gs. is_pair p \<and> (\<forall>g\<in>set gs. is_group g)
      \<and> length gs = (size M - 2) div 3 \<and> M = p + sum_list gs)"

text \<open>
  Auxiliary notions: a multiset split into exactly \<open>n\<close> groups, the multiset a
  multiplicity map stands for, and multisets whose numeric kinds have one-digit values.
\<close>

definition decomposes :: "kind multiset \<Rightarrow> int \<Rightarrow> bool" where
  "decomposes M n = (\<exists>gs. (\<forall>g\<in>set gs. is_group g) \<and> int (length gs) = n \<and> M = sum_list gs)"

definition cmset :: "counts \<Rightarrow> kind multiset" where
  "cmset c = mset (concat (map (\<lambda>k. replicate (cget c k) k) (remdups (map fst c))))"

definition digit_values :: "kind multiset \<Rightarrow> bool" where
  "digit_values M = (\<forall>k\<in>#M. numeric (fst k) \<longrightarrow> 0 \<le> snd k \<and> snd k \<le> 9)"

text \<open>
  The scenario of the specification: four numeric groups and a pair of 5 Wan, and the same
  hand with the pair replaced by a single dragon.
\<close>

definition win_hand :: "Tile list" where
  "win_hand =
     [tileOf Wan 1 0, tileOf Wan 2 0, tileOf Wan 3 0, tileOf Tiao 4 0, tileOf Tiao 5 0, tileOf Tiao 6 0,
      tileOf Tong 7 0, tileOf Tong 8 0, tileOf Tong 9 0, tileOf Tong 1 0, tileOf Tong 2 0, tileOf Tong 3 0,
      tileOf Wan 5 0, tileOf Wan 5 1]"

definition lone_dragon_hand :: "Tile list" where
  "lone_dragon_hand = take 12 win_hand @ [tileOf Dragon 1 0]"

section \<open>The tiles of a game\<close>

text \<open>
  The tiles a player holds and the tiles of a game; for the deal, the tiles of the deck
  and the players dealt to.
\<close>

definition player_tiles :: "PlayerState \<Rightarrow> Tile multiset" where
  "player_tiles p = mset (hand p) + mset (discards p) + mset (concat (map tiles (melds p)))"

definition all_tiles :: "GameState \<Rightarrow> Tile multiset" where
  "all_tiles g = mset (deck g) + sum_list (map player_tiles (players g))"

definition table :: "Tile list \<times> PlayerState list \<Rightarrow> Tile multiset" where
  "table st = mset (fst st) + sum_list (map player_tiles (snd st))"

text \<open>
  What the session start establishes and every command of the current render keeps true
  besides the tiles: four players seated at their ids, a last discard that is the last
  tile of the discarder's pile, pending actions only of seats other than the discarder
  and none while the phase is Playing, and timers for seats 0-3.
\<close>

definition seats_ok :: "GameState \<Rightarrow> bool" where
  "seats_ok g = (length (players g) = 4 \<and> (\<forall>i<4. pid (players g ! i) = i) \<and> currentTurn g < 4)"

definition last_ok :: "GameState \<Rightarrow> bool" where
  "last_ok g = (case lastDiscard g of None \<Rightarrow> True
     | Some (t, f) \<Rightarrow> f < 4 \<and> discards (players g ! f) \<noteq> [] \<and> last (discards (players g ! f)) = t)"

definition pending_ok :: "(nat \<times> Action list) list \<Rightarrow> GameState \<Rightarrow> bool" where
  "pending_ok pa g =
     ((\<forall>x\<in>set pa. fst x < 4 \<and> (case lastDiscard g of None \<Rightarrow> False | Some (t, f) \<Rightarrow> fst x \<noteq> f))
      \<and> (phase g = Playing \<longrightarrow> pa = []))"

definition timers_ok :: "Timer list \<Rightarrow> bool" where
  "timers_ok ts = (\<forall>t\<in>set ts. case t of NextTurnTimer p \<Rightarrow> p < 4 | KongDrawTimer p \<Rightarrow> p < 4)"

definition consistent :: "AppState \<Rightarrow> bool" where
  "consistent st = (case game st of None \<Rightarrow> False
     | Some g \<Rightarrow> seats_ok g \<and> all_tiles g = mset createDeck \<and> last_ok g
         \<and> pending_ok (pendingActions st) g \<and> timers_ok (timers st))"

section \<open>The deck\<close>

lemma deck_kinds: "map kind_of createDeck = concat (map (replicate 4) all_kinds)"
  by code_simp

lemma deck_ids_distinct: "distinct (map tid createDeck)"
  by code_simp

lemma distinct_all_kinds: "distinct all_kinds"
  by code_simp

lemma count_concat_replicate:
  "distinct ks \<Longrightarrow> count (mset (concat (map (replicate n) ks))) k = (if k \<in> set ks then n else 0)"
  by (induction ks) auto

lemma set_all_kinds: "k \<in> set all_kinds \<longleftrightarrow> valid_kind k"
  unfolding all_kinds_def valid_kind_def numeric_def
  by (cases k; rename_tac s v; case_tac s) auto

lemma length_createDeck: "length createDeck = 136"
proof -
  have "length (map kind_of createDeck) = 136"
    unfolding deck_kinds by code_simp
  then show ?thesis by simp
qed

text \<open>
  C7. \<open>createDeck\<close> returns 136 tiles; a kind occurs four times when its value is in the
  range of its suit (1-9 for Wan, Tiao and Tong, 1-4 for Wind, 1-3 for Dragon) and not at
  all otherwise; no two tiles share an id.
\<close>

theorem createDeck_136_four_of_each:
  "length createDeck = 136
   \<and> (\<forall>k. count (mset (map kind_of createDeck)) k = (if valid_kind k then 4 else 0))
   \<and> distinct (map tid createDeck)"
proof -
  have "\<forall>k. count (mset (map kind_of createDeck)) k = (if valid_kind k then 4 else 0)"
    unfolding deck_kinds
    by (simp only: count_concat_replicate[OF distinct_all_kinds] set_all_kinds) simp
  then show ?thesis using length_createDeck deck_ids_distinct by simp
qed

section \<open>Lists, hands and the position\<close>

lemma findIndex_None: "findIndex P xs = None \<longleftrightarrow> (\<forall>x\<in>set xs. \<not> P x)"
  by (induction xs) auto

lemma findIndex_Some:
  "findIndex P xs = Some i \<Longrightarrow> i < length xs \<and> P (xs ! i) \<and> (\<forall>j<i. \<not> P (xs ! j))"
proof (induction xs arbitrary: i)
  case Nil
  then show ?case by simp
next
  case (Cons x xs)
  show ?case
  proof (cases "P x")
    case True
    with Cons.prems show ?thesis by simp
  next
    case False
    with Cons.prems obtain k where k: "findIndex P xs = Some k" "i = Suc k" by auto
    from Cons.IH[OF k(1)] False k(2) show ?thesis
      by (auto simp: less_Suc_eq_0_disj)
  qed
qed

lemma mset_splice1: "i < length xs \<Longrightarrow> mset (splice1 i xs) + {#xs ! i#} = mset xs"
proof -
  assume a: "i < length xs"
  from id_take_nth_drop[OF a]
  have "mset xs = mset (take i xs @ xs ! i # drop (Suc i) xs)" by (rule arg_cong)
  also have "\<dots> = mset (splice1 i xs) + {#xs ! i#}" by (simp add: splice1_def)
  finally show ?thesis by simp
qed

lemma length_splice1: "i < length xs \<Longrightarrow> length (splice1 i xs) = length xs - 1"
  by (auto simp: splice1_def)

lemma nth_splice1: "j < i \<Longrightarrow> i < length xs \<Longrightarrow> splice1 i xs ! j = xs ! j"
  by (simp add: splice1_def nth_append)

lemma mset_sortHand: "mset (sortHand h) = mset h"
  by (simp add: sortHand_def)

lemma length_sortHand: "length (sortHand h) = length h"
  by (simp add: sortHand_def)

lemma set_sortHand: "set (sortHand h) = set h"
  by (simp add: sortHand_def)

lemma game_checkResponseActions [simp]: "game (checkResponseActions g t f st) = game st"
  by (simp add: checkResponseActions_def Let_def)

lemma handleDiscard_accepted:
  assumes "game st = Some g" "phase g = Playing"
    and "findIndex (\<lambda>t. tid t = tileId) (hand (players g ! p)) = Some i"
  shows "handleDiscard st p tileId =
     checkResponseActions g (hand (players g ! p) ! i) p
       (st\<lparr>game := Some (addLog (pname (players g ! p) @ txt_discarded @ tname (hand (players g ! p) ! i))
          (g\<lparr>players := (players g)[p := (players g ! p)\<lparr>hand := sortHand (splice1 i (hand (players g ! p))),
                 discards := discards (players g ! p) @ [hand (players g ! p) ! i]\<rparr>],
             lastDiscard := Some (hand (players g ! p) ! i, p), phase := ActionWindow\<rparr>))\<rparr>)"
  using assms by (simp add: handleDiscard_def Let_def)

lemma seat_fields [simp]:
  "hand (seat i h d) = h" "discards (seat i h d) = d" "melds (seat i h d) = melds (initialPlayers ! i)"
  "pid (seat i h d) = pid (initialPlayers ! i)" "isAI (seat i h d) = isAI (initialPlayers ! i)"
  "pname (seat i h d) = pname (initialPlayers ! i)"
  by (simp_all add: seat_def)

lemma initialPlayers_fields [simp]:
  "pid (initialPlayers ! 0) = 0" "pid (initialPlayers ! Suc 0) = 1" "pid (initialPlayers ! 2) = 2"
  "pid (initialPlayers ! 3) = 3"
  "isAI (initialPlayers ! 0) = False" "isAI (initialPlayers ! Suc 0) = True"
  "isAI (initialPlayers ! 2) = True" "isAI (initialPlayers ! 3) = True"
  "melds (initialPlayers ! 0) = []" "melds (initialPlayers ! Suc 0) = []"
  "melds (initialPlayers ! 2) = []" "melds (initialPlayers ! 3) = []"
  by (simp_all add: initialPlayers_def)

lemma seat_update [simp]:
  "(seat i h d)\<lparr>hand := h', discards := d'\<rparr> = seat i h' d'"
  "(seat i h d)\<lparr>discards := d'\<rparr> = seat i h d'"
  "(seat i h d)\<lparr>hand := h'\<rparr> = seat i h' d"
  by (simp_all add: seat_def)

lemma turn3_facts:
  "canHu hand3 [] = False" "aiDiscardIndex hand3 = 0" "hand3 \<noteq> []" "hand3 ! 0 = claimed"
  "findIndex (\<lambda>t. tid t = tid claimed) hand3 = Some 0"
  "sortHand (splice1 0 hand3) = hand3_after"
  by code_simp+

lemma claims_offered:
  "possibleActions (seat 0 hand0 pile0) claimed 3 = [Chow, Chow, Chow]"
  "possibleActions (seat (Suc 0) hand1 pile1) claimed 3 = [Pung, Kong]"
  "possibleActions (seat 2 hand2 pile2) claimed 3 = [Hu]"
  by code_simp+

lemma kong_facts:
  "takeFromHand Kong claimed hand1 =
     ([claimed, tileOf Wan 5 2, tileOf Wan 5 1, tileOf Wan 5 0], hand1_after)"
  "sortHand hand1_after = hand1_after"
  by code_simp+

lemma stage1: "aiTurn endgame = window"
  by (simp add: aiTurn_def endgame_def endgame_game_def handleDiscard_def checkResponseActions_def 
      responseActions_def addLog_def window_def window_game_def turn3_facts claims_offered Let_def)

lemma stage2: "aiResponse window = after_kong"
  by (simp add: aiResponse_def window_def window_game_def endgame_game_def performAction_def resolveAction_def
      kong_facts after_kong_def after_kong_game_def Let_def)

section \<open>Commands whose precondition fails\<close>

text \<open>
  What the guards reject. A discard is a no-op when the phase is not Playing or the tile
  id is not in the acting seat's hand, and a claim when its render has no last discard
  (and both before the first game is set). The acting seat of a discard is not compared
  with the current turn, and a claim is tested neither against the phase nor against the
  pending actions, nor against the last discard of the state it updates.
\<close>

lemma guards_reject:
  "(game st = None \<longrightarrow> handleDiscard st p tileId = st)
   \<and> (game st = Some g \<and> (phase g \<noteq> Playing \<or> tileId \<notin> tid ` set (hand (players g ! p)))
        \<longrightarrow> handleDiscard st p tileId = st)
   \<and> (game render = None \<longrightarrow> performAction render st p a = st)
   \<and> (game render = Some r \<and> lastDiscard r = None \<longrightarrow> performAction render st p a = st)"
proof -
  have "findIndex (\<lambda>t. tid t = tileId) (hand (players g ! p)) = None"
    if "tileId \<notin> tid ` set (hand (players g ! p))"
    using that by (auto simp: findIndex_None)
  then show ?thesis
    by (auto simp: handleDiscard_def performAction_def)
qed

lemma chow_take_facts:
  "takeFromHand Chow claimed hand0 = ([claimed, tileOf Wan 3 0, tileOf Wan 4 1], hand0_after)"
  "sortHand hand0_after = hand0_after"
  by code_simp+

text \<open>
  C4 in the code: a claim whose precondition fails is applied. After seat 3's discard the
  AI response resolves seat 1's kong: the phase is Playing, there is no last discard, no
  claim is pending and seat 1 has the turn. Seat 0's chow button of the action window is
  still mounted; its handler finds the last discard of its own render and the chow is
  applied to the new state: seat 0 gets the turn and a chow meld, and seat 3's pile loses
  one more tile.
\<close>

theorem failed_claim_is_applied:
  "map_option phase (game (aiResponse (aiTurn endgame))) = Some Playing
   \<and> map_option lastDiscard (game (aiResponse (aiTurn endgame))) = Some None
   \<and> pendingActions (aiResponse (aiTurn endgame)) = []
   \<and> map_option currentTurn (game (aiResponse (aiTurn endgame))) = Some 1
   \<and> map_option (\<lambda>g. (map mtype (melds (players g ! 0)), length (discards (players g ! 3))))
        (game (aiResponse (aiTurn endgame))) = Some ([], 20)
   \<and> map_option currentTurn
        (game (performAction (aiTurn endgame) (aiResponse (aiTurn endgame)) 0 Chow)) = Some 0
   \<and> map_option (\<lambda>g. (map mtype (melds (players g ! 0)), length (discards (players g ! 3))))
        (game (performAction (aiTurn endgame) (aiResponse (aiTurn endgame)) 0 Chow))
       = Some ([Chow], 19)"
  unfolding stage1 stage2
  by (simp add: window_def after_kong_def after_kong_game_def window_game_def
      endgame_game_def performAction_def resolveAction_def chow_take_facts pile3_def Let_def)

section \<open>Win claims\<close>

text \<open>
  What a resolved win claim does: the game is over with the claiming seat as winner and
  win type Discard, and every pending claim is dropped; the AI response resolves it when
  the first AI seat of the pending actions has the win among its actions.
\<close>

lemma performAction_win:
  "game render = Some r \<Longrightarrow> lastDiscard r = Some (tile, from_player) \<Longrightarrow> game st = Some g \<Longrightarrow>
   game (performAction render st p Hu) =
       Some (g\<lparr>phase := GameOver, winner := Some p, winType := Some Discard,
               logs := (pname (players g ! p) @ txt_won @ pname (players g ! from_player)) # logs g\<rparr>)
   \<and> pendingActions (performAction render st p Hu) = []
   \<and> timers (performAction render st p Hu) = timers st"
  by (simp add: performAction_def resolveAction_def Let_def)

lemma aiResponse_first_seat_win:
  "game st = Some g \<Longrightarrow> phase g = ActionWindow \<Longrightarrow>
   filter (\<lambda>a. isAI (players g ! fst a)) (pendingActions st) = (p, acts) # others \<Longrightarrow>
   Hu \<in> set acts \<Longrightarrow> aiResponse st = performAction st st p Hu"
  by (simp add: aiResponse_def)

text \<open>
  When the first AI seat has a kong (or a pung, or a chow) and no win, that claim is
  resolved, whatever the later entries \<open>others\<close> hold.
\<close>

lemma aiResponse_first_seat_only:
  "game st = Some g \<Longrightarrow> phase g = ActionWindow \<Longrightarrow>
   filter (\<lambda>a. isAI (players g ! fst a)) (pendingActions st) = (p, acts) # others \<Longrightarrow>
   Hu \<notin> set acts \<Longrightarrow>
   aiResponse st =
     (if Kong \<in> set acts then performAction st st p Kong
      else if Pung \<in> set acts then performAction st st p Pung
      else if Chow \<in> set acts then performAction st st p Chow
      else passAction st st p)"
  by (simp add: aiResponse_def)

text \<open>
  C2 in the code: a win claim does not come before the claims of other seats. The AI
  response takes the first AI seat of the pending actions (\<open>aiActions[0]\<close>) and ranks
  win, kong, pung and chow only among that seat's own actions. After seat 3's discard the
  claim set holds a win for seat 2 and a pung and a kong for seat 1: the kong of seat 1 is
  resolved, the game goes on with no winner and seat 2's win claim is dropped.
\<close>

theorem later_win_claim_dropped:
  "pendingActions (aiTurn endgame) = [(0, [Chow, Chow, Chow]), (1, [Pung, Kong]), (2, [Hu])]
   \<and> map_option phase (game (aiResponse (aiTurn endgame))) = Some Playing
   \<and> map_option winner (game (aiResponse (aiTurn endgame))) = Some None
   \<and> map_option (\<lambda>g. map mtype (melds (players g ! 1))) (game (aiResponse (aiTurn endgame)))
       = Some [Kong]
   \<and> pendingActions (aiResponse (aiTurn endgame)) = []"
  unfolding stage1 stage2
  by (simp add: window_def after_kong_def after_kong_game_def window_game_def endgame_game_def)

section \<open>Drawing from an empty wall\<close>

lemma drawFor_empty_wall:
  "deck g = [] \<Longrightarrow>
   drawFor p g = g\<lparr>phase := GameOver, winner := None, logs := txt_wall_empty # logs g\<rparr>"
  by (simp add: drawFor_def)

lemma kongReplacementDraw_empty_wall:
  "deck g = [] \<Longrightarrow>
   \<exists>g'. kongReplacementDraw p g = Inl (UndefinedTileDrawn g') \<and> phase g' = phase g
        \<and> winner g' = winner g"
  by (simp add: kongReplacementDraw_def Let_def)

text \<open>
  C3 at the end-game position: seat 3 discards, seat 1 takes the kong, and the replacement
  draw fires on the empty wall. \<open>nextTurn\<close> ends the game there
  (\<open>drawFor_empty_wall\<close>); the replacement draw does not: the phase stays Playing and no
  stalemate is recorded.
\<close>

theorem kong_draw_on_empty_wall:
  "timers (aiResponse (aiTurn endgame)) = [KongDrawTimer 1]
   \<and> map_option deck (game (aiResponse (aiTurn endgame))) = Some []
   \<and> (case fireTimer (KongDrawTimer 1) (aiResponse (aiTurn endgame)) of
         Inl (UndefinedTileDrawn g) \<Rightarrow> phase g = Playing \<and> winner g = None
       | Inr st \<Rightarrow> False)"
  unfolding stage1 stage2
  by (simp add: after_kong_def after_kong_game_def window_game_def endgame_game_def
      fireTimer_def kongReplacementDraw_def Let_def)

section \<open>The log\<close>

text \<open>
  C9 at the end-game position: the log holds 50 entries after seat 3's discard
  (\<open>addLog\<close> truncates) and 51 after the kong is resolved (\<open>performAction\<close> prepends
  without truncating).
\<close>

theorem claim_log_exceeds_cap:
  "map_option (\<lambda>g. length (logs g)) (game (aiTurn endgame)) = Some 50
   \<and> map_option (\<lambda>g. length (logs g)) (game (aiResponse (aiTurn endgame))) = Some 51"
  unfolding stage1 stage2
  by (simp add: window_def after_kong_def after_kong_game_def window_game_def endgame_game_def)

section \<open>The claim set\<close>

lemma responseActions_iff:
  "x \<in> set (responseActions ps tile d) \<longleftrightarrow>
     (\<exists>p\<in>set ps. pid p \<noteq> d \<and> possibleActions p tile d \<noteq> []
        \<and> x = (pid p, possibleActions p tile d))"
  by (auto simp: responseActions_def Let_def)

lemma possibleActions_members:
  "Hu \<in> set (possibleActions p tile d) \<longleftrightarrow> canHu (hand p @ [tile]) (melds p)"
  "Pung \<in> set (possibleActions p tile d) \<longleftrightarrow> 2 \<le> length (filter (\<lambda>t. isSameTile t tile) (hand p))"
  "Kong \<in> set (possibleActions p tile d) \<longleftrightarrow> length (filter (\<lambda>t. isSameTile t tile) (hand p)) = 3"
  "Chow \<in> set (possibleActions p tile d) \<longleftrightarrow>
     pid p = (d + 1) mod 4 \<and> numeric (suit tile)
     \<and> (has_value (hand p) (suit tile) (tvalue tile - 2) \<and> has_value (hand p) (suit tile) (tvalue tile - 1)
        \<or> has_value (hand p) (suit tile) (tvalue tile - 1) \<and> has_value (hand p) (suit tile) (tvalue tile + 1)
        \<or> has_value (hand p) (suit tile) (tvalue tile + 1) \<and> has_value (hand p) (suit tile) (tvalue tile + 2))"
  by (auto simp: possibleActions_def Let_def)








section \<open>Taking tiles from the hand\<close>

lemma spliceAll_snoc:
  "spliceAll (js @ [i]) (m, h) = spliceAll js (m @ [h ! i], splice1 i h)"
  by (simp add: spliceAll_def)

lemma spliceAll_ascending:
  assumes "sorted_wrt (<) js" and "\<forall>j\<in>set js. j < length h"
  shows "fst (spliceAll js (m, h)) = m @ rev (map ((!) h) js)
       \<and> mset (snd (spliceAll js (m, h))) + mset (map ((!) h) js) = mset h"
  using assms
proof (induction js arbitrary: m h rule: rev_induct)
  case Nil
  then show ?case by (simp add: spliceAll_def)
next
  case (snoc i js)
  from snoc.prems have i: "i < length h" and lt: "\<forall>j\<in>set js. j < i"
    and srt: "sorted_wrt (<) js"
    by (auto simp: sorted_wrt_append)
  have len: "\<forall>j\<in>set js. j < length (splice1 i h)"
    using lt i by (auto simp: length_splice1)
  have same: "map ((!) (splice1 i h)) js = map ((!) h) js"
    using lt i by (auto simp: nth_splice1)
  from snoc.IH[OF srt len, of "m @ [h ! i]"] mset_splice1[OF i]
  show ?case
    unfolding spliceAll_snoc same by (simp add: add.commute add.left_commute)
qed

lemma sameIndices_props:
  "sorted_wrt (<) (sameIndices h tile)"
  "\<forall>j\<in>set (sameIndices h tile). j < length h \<and> isSameTile (h ! j) tile"
  "length (sameIndices h tile) = length (filter (\<lambda>t. isSameTile t tile) h)"
proof -
  show "sorted_wrt (<) (sameIndices h tile)"
    unfolding sameIndices_def by (rule sorted_wrt_filter) (simp)
  show "\<forall>j\<in>set (sameIndices h tile). j < length h \<and> isSameTile (h ! j) tile"
    by (simp add: sameIndices_def)
  have "length (filter (\<lambda>i. P (h ! i)) [0 ..< length h]) = length (filter P h)" for P
    by (auto simp: length_filter_conv_card intro!: arg_cong[where f = card])
  then show "length (sameIndices h tile) = length (filter (\<lambda>t. isSameTile t tile) h)"
    by (simp add: sameIndices_def)
qed

lemma take_same_tiles:
  assumes "n \<le> length (filter (\<lambda>t. isSameTile t tile) h)"
  shows "\<exists>removed. spliceAll (take n (sameIndices h tile)) ([tile], h)
            = (tile # removed, snd (spliceAll (take n (sameIndices h tile)) ([tile], h)))
         \<and> length removed = n \<and> (\<forall>t\<in>set removed. isSameTile t tile)
         \<and> mset h = mset (snd (spliceAll (take n (sameIndices h tile)) ([tile], h))) + mset removed"
proof -
  let ?js = "take n (sameIndices h tile)"
  have srt: "sorted_wrt (<) ?js"
    using sameIndices_props(1)[of h tile] by (simp add: sorted_wrt_take)
  have bnd: "\<forall>j\<in>set ?js. j < length h \<and> isSameTile (h ! j) tile"
    using sameIndices_props(2)[of h tile] by (auto dest: in_set_takeD)
  have len: "length ?js = n"
    using assms sameIndices_props(3)[of h tile] by simp
  from bnd have "\<forall>j\<in>set ?js. j < length h" by blast
  from spliceAll_ascending[OF srt this, of "[tile]"]
  have f: "fst (spliceAll ?js ([tile], h)) = tile # rev (map ((!) h) ?js)"
    and m: "mset (snd (spliceAll ?js ([tile], h))) + mset (map ((!) h) ?js) = mset h"
    by simp_all
  let ?removed = "rev (map ((!) h) ?js)"
  have "spliceAll ?js ([tile], h) = (tile # ?removed, snd (spliceAll ?js ([tile], h)))"
    using f by (metis prod.collapse)
  moreover have "length ?removed = n" using len by simp
  moreover have "\<forall>t\<in>set ?removed. isSameTile t tile" using bnd by auto
  moreover have "mset h = mset (snd (spliceAll ?js ([tile], h))) + mset ?removed"
    using m by simp
  ultimately show ?thesis by blast
qed

lemma has_value_iff: "has_value h s v \<longleftrightarrow> (\<exists>t\<in>set h. suit t = s \<and> tvalue t = v)"
  by (simp add: has_value_def list_ex_iff)

lemma findAndRemove_present:
  assumes "has_value h s v"
  shows "\<exists>x h'. findAndRemove s v (m, h) = (m @ [x], h') \<and> suit x = s \<and> tvalue x = v
          \<and> mset h = mset h' + {#x#}"
proof -
  from assms have "findIndex (\<lambda>t. suit t = s \<and> tvalue t = v) h \<noteq> None"
    by (simp add: findIndex_None has_value_iff)
  then obtain i where i: "findIndex (\<lambda>t. suit t = s \<and> tvalue t = v) h = Some i" by auto
  from findIndex_Some[OF i] mset_splice1[of i h] i show ?thesis
    by (simp add: findAndRemove_def)
qed

lemma has_value_after_removal:
  assumes "mset h = mset h' + {#x#}" and "tvalue x \<noteq> v"
  shows "has_value h' s v = has_value h s v"
proof -
  from assms(1) have "set h = insert x (set h')"
    by (metis set_mset_mset set_mset_add_mset_insert add_mset_add_single)
  with assms(2) show ?thesis by (auto simp: has_value_iff)
qed

lemma findAndRemove_two:
  assumes "has_value h s v" and "has_value h s w" and "v \<noteq> w"
  shows "\<exists>x y h'. findAndRemove s w (findAndRemove s v ([tile], h)) = ([tile, x, y], h')
          \<and> suit x = s \<and> tvalue x = v \<and> suit y = s \<and> tvalue y = w
          \<and> mset h = mset h' + mset [x, y]"
proof -
  from findAndRemove_present[OF assms(1), of "[tile]"] obtain x h1 where
    1: "findAndRemove s v ([tile], h) = ([tile, x], h1)" "suit x = s" "tvalue x = v"
       "mset h = mset h1 + {#x#}" by auto
  from has_value_after_removal[OF 1(4), of w s] assms(2,3) 1(3) have "has_value h1 s w" by simp
  from findAndRemove_present[OF this, of "[tile, x]"] obtain y h2 where
    2: "findAndRemove s w ([tile, x], h1) = ([tile, x, y], h2)" "suit y = s" "tvalue y = w"
       "mset h1 = mset h2 + {#y#}" by auto
  from 1 2 show ?thesis by auto
qed


lemma takeFromHand_pung:
  assumes "2 \<le> length (filter (\<lambda>t. isSameTile t tile) h)"
  shows "\<exists>removed h'. takeFromHand Pung tile h = (tile # removed, h') \<and> length removed = 2
          \<and> (\<forall>t\<in>set removed. isSameTile t tile) \<and> mset h = mset h' + mset removed"
  using take_same_tiles[OF assms] by (auto simp: takeFromHand_def)

lemma takeFromHand_kong:
  assumes "length (filter (\<lambda>t. isSameTile t tile) h) = 3"
  shows "\<exists>removed h'. takeFromHand Kong tile h = (tile # removed, h') \<and> length removed = 3
          \<and> (\<forall>t\<in>set removed. isSameTile t tile) \<and> mset h = mset h' + mset removed"
proof -
  have "take 3 (sameIndices h tile) = sameIndices h tile"
    using assms sameIndices_props(3)[of h tile] by simp
  with take_same_tiles[of 3 tile h] assms show ?thesis
    by (auto simp: takeFromHand_def)
qed

lemma takeFromHand_chow:
  assumes "has_value h (suit tile) (tvalue tile - 2) \<and> has_value h (suit tile) (tvalue tile - 1)
         \<or> has_value h (suit tile) (tvalue tile - 1) \<and> has_value h (suit tile) (tvalue tile + 1)
         \<or> has_value h (suit tile) (tvalue tile + 1) \<and> has_value h (suit tile) (tvalue tile + 2)"
  shows "\<exists>removed h'. takeFromHand Chow tile h = (tile # removed, h') \<and> length removed = 2
          \<and> (\<forall>t\<in>set removed. suit t = suit tile) \<and> map tvalue removed = chow_choice h tile
          \<and> mset h = mset h' + mset removed"
proof -
  let ?s = "suit tile" and ?v = "tvalue tile"
  consider (low) "has_value h ?s (?v - 2) \<and> has_value h ?s (?v - 1)"
    | (mid) "\<not> (has_value h ?s (?v - 2) \<and> has_value h ?s (?v - 1))"
        "has_value h ?s (?v - 1) \<and> has_value h ?s (?v + 1)"
    | (high) "\<not> (has_value h ?s (?v - 2) \<and> has_value h ?s (?v - 1))"
        "\<not> (has_value h ?s (?v - 1) \<and> has_value h ?s (?v + 1))"
        "has_value h ?s (?v + 1) \<and> has_value h ?s (?v + 2)"
    using assms by blast
  then show ?thesis
  proof cases
    case low
    from findAndRemove_two[of h ?s "?v - 2" "?v - 1" tile] low
    obtain x y h' where "findAndRemove ?s (?v - 1) (findAndRemove ?s (?v - 2) ([tile], h)) = ([tile, x, y], h')"
      "suit x = ?s" "tvalue x = ?v - 2" "suit y = ?s" "tvalue y = ?v - 1" "mset h = mset h' + mset [x, y]"
      by auto
    with low show ?thesis
      by (intro exI[of _ "[x, y]"] exI[of _ h']) (simp add: takeFromHand_def chow_choice_def Let_def)
  next
    case mid
    from findAndRemove_two[of h ?s "?v - 1" "?v + 1" tile] mid
    obtain x y h' where "findAndRemove ?s (?v + 1) (findAndRemove ?s (?v - 1) ([tile], h)) = ([tile, x, y], h')"
      "suit x = ?s" "tvalue x = ?v - 1" "suit y = ?s" "tvalue y = ?v + 1" "mset h = mset h' + mset [x, y]"
      by auto
    with mid show ?thesis
      by (intro exI[of _ "[x, y]"] exI[of _ h']) (simp add: takeFromHand_def chow_choice_def Let_def)
  next
    case high
    from findAndRemove_two[of h ?s "?v + 1" "?v + 2" tile] high
    obtain x y h' where "findAndRemove ?s (?v + 2) (findAndRemove ?s (?v + 1) ([tile], h)) = ([tile, x, y], h')"
      "suit x = ?s" "tvalue x = ?v + 1" "suit y = ?s" "tvalue y = ?v + 2" "mset h = mset h' + mset [x, y]"
      by auto
    with high show ?thesis
      by (intro exI[of _ "[x, y]"] exI[of _ h']) (simp add: takeFromHand_def chow_choice_def Let_def)
  qed
qed

lemma chow_choice_lowest:
  assumes "(w1, w2) \<in> set (completing_pairs (tvalue tile))"
    and "has_value h (suit tile) w1" and "has_value h (suit tile) w2"
  shows "chow_choice h tile ! 0 \<le> w1 \<and> chow_choice h tile ! 1 \<le> w2"
  using assms by (auto simp: completing_pairs_def chow_choice_def Let_def)

lemma performAction_claim:
  assumes "game render = Some r" and "lastDiscard r = Some (tile, d)" and "game st = Some g"
    and "p < length (players g)" and "d < length (players g)" and "p \<noteq> d"
    and "a = Pung \<or> a = Kong \<or> a = Chow"
    and "takeFromHand a tile (hand (players g ! p)) = (tile # removed, h')"
  shows "\<exists>g'. game (performAction render st p a) = Some g'
     \<and> hand (players g' ! p) = sortHand h'
     \<and> melds (players g' ! p) = melds (players g ! p)
          @ [\<lparr>mtype = a, tiles = tile # removed, fromPlayer = Some d\<rparr>]
     \<and> discards (players g' ! d) = butlast (discards (players g ! d))
     \<and> currentTurn g' = p \<and> lastDiscard g' = None \<and> phase g' = Playing
     \<and> pendingActions (performAction render st p a) = []"
  using assms by (auto simp: performAction_def resolveAction_def Let_def)


text \<open>
  C5. A pung, kong or chow that is in the claimant's list of possible actions for the last
  discard, claimed from the render of the state it is applied to (\<open>performAction st st\<close>),
  the discard being the last tile of the discarder's pile: 2, 3 or 2 tiles leave
  the claimant's hand, of the claimed kind for a pung or kong, of the claimed suit and with
  the values of the lowest completing pair in the hand for a chow; one meld made of the
  claimed tile and the removed tiles, tagged with the discarder, is appended; the
  discarder's pile loses the claimed tile; the claimant has the turn, the last discard is
  cleared and the phase is Playing.
\<close>

theorem claim_resolution:
  assumes "game st = Some g" and "lastDiscard g = Some (tile, d)"
    and "p < length (players g)" and "d < length (players g)" and "p \<noteq> d"
    and "discards (players g ! d) \<noteq> []" and "last (discards (players g ! d)) = tile"
    and "a = Pung \<or> a = Kong \<or> a = Chow"
    and "a \<in> set (possibleActions (players g ! p) tile d)"
  shows "\<exists>g' removed. game (performAction st st p a) = Some g'
     \<and> length removed = (if a = Kong then 3 else 2)
     \<and> mset (hand (players g ! p)) = mset (hand (players g' ! p)) + mset removed
     \<and> (a \<noteq> Chow \<longrightarrow> (\<forall>t\<in>set removed. isSameTile t tile))
     \<and> (a = Chow \<longrightarrow> (\<forall>t\<in>set removed. suit t = suit tile)
           \<and> map tvalue removed = chow_choice (hand (players g ! p)) tile
           \<and> (\<forall>w\<in>set (completing_pairs (tvalue tile)).
                 has_value (hand (players g ! p)) (suit tile) (fst w)
                 \<and> has_value (hand (players g ! p)) (suit tile) (snd w)
                 \<longrightarrow> tvalue (removed ! 0) \<le> fst w \<and> tvalue (removed ! 1) \<le> snd w))
     \<and> melds (players g' ! p) = melds (players g ! p)
          @ [\<lparr>mtype = a, tiles = tile # removed, fromPlayer = Some d\<rparr>]
     \<and> discards (players g' ! d) = butlast (discards (players g ! d))
     \<and> mset (discards (players g ! d)) = mset (discards (players g' ! d)) + {#tile#}
     \<and> currentTurn g' = p \<and> lastDiscard g' = None \<and> phase g' = Playing
     \<and> pendingActions (performAction st st p a) = []"
proof -
  let ?h = "hand (players g ! p)"
  have pile: "mset (discards (players g ! d)) = mset (butlast (discards (players g ! d))) + {#tile#}"
    using assms(6,7) append_butlast_last_id[of "discards (players g ! d)"]
    by (metis mset.simps(1) mset.simps(2) mset_append add_mset_add_single)
  have taken: "\<exists>removed h'. takeFromHand a tile ?h = (tile # removed, h')
     \<and> length removed = (if a = Kong then 3 else 2)
     \<and> mset ?h = mset h' + mset removed
     \<and> (a \<noteq> Chow \<longrightarrow> (\<forall>t\<in>set removed. isSameTile t tile))
     \<and> (a = Chow \<longrightarrow> (\<forall>t\<in>set removed. suit t = suit tile)
           \<and> map tvalue removed = chow_choice ?h tile)"
  proof -
    consider (pung) "a = Pung" | (kong) "a = Kong" | (chow) "a = Chow" using assms(8) by blast
    then show ?thesis
    proof cases
      case pung
      with assms(9) have "2 \<le> length (filter (\<lambda>t. isSameTile t tile) ?h)"
        by (simp add: possibleActions_members)
      from takeFromHand_pung[OF this] pung show ?thesis by auto
    next
      case kong
      with assms(9) have "length (filter (\<lambda>t. isSameTile t tile) ?h) = 3"
        by (simp add: possibleActions_members)
      from takeFromHand_kong[OF this] kong show ?thesis by auto
    next
      case chow
      with assms(9) have "has_value ?h (suit tile) (tvalue tile - 2) \<and> has_value ?h (suit tile) (tvalue tile - 1)
         \<or> has_value ?h (suit tile) (tvalue tile - 1) \<and> has_value ?h (suit tile) (tvalue tile + 1)
         \<or> has_value ?h (suit tile) (tvalue tile + 1) \<and> has_value ?h (suit tile) (tvalue tile + 2)"
        by (simp add: possibleActions_members)
      from takeFromHand_chow[OF this] chow show ?thesis by auto
    qed
  qed
  then obtain removed h' where t: "takeFromHand a tile ?h = (tile # removed, h')"
    "length removed = (if a = Kong then 3 else 2)" "mset ?h = mset h' + mset removed"
    "a \<noteq> Chow \<longrightarrow> (\<forall>t\<in>set removed. isSameTile t tile)"
    "a = Chow \<longrightarrow> (\<forall>t\<in>set removed. suit t = suit tile) \<and> map tvalue removed = chow_choice ?h tile"
    by blast
  from performAction_claim[OF assms(1,2,1,3,4,5) assms(8) t(1)] obtain g' where
    g': "game (performAction st st p a) = Some g'" "hand (players g' ! p) = sortHand h'"
      "melds (players g' ! p) = melds (players g ! p)
          @ [\<lparr>mtype = a, tiles = tile # removed, fromPlayer = Some d\<rparr>]"
      "discards (players g' ! d) = butlast (discards (players g ! d))"
      "currentTurn g' = p" "lastDiscard g' = None" "phase g' = Playing"
      "pendingActions (performAction st st p a) = []"
    by blast
  have low: "tvalue (removed ! 0) \<le> fst w \<and> tvalue (removed ! 1) \<le> snd w"
    if "a = Chow" "w \<in> set (completing_pairs (tvalue tile))"
      "has_value ?h (suit tile) (fst w)" "has_value ?h (suit tile) (snd w)" for w
  proof -
    from that(1) t(2,5) have m: "map tvalue removed = chow_choice ?h tile" "length removed = 2" by auto
    from chow_choice_lowest[of "fst w" "snd w" tile ?h] that(2-4)
    have "chow_choice ?h tile ! 0 \<le> fst w \<and> chow_choice ?h tile ! 1 \<le> snd w" by simp
    moreover have "chow_choice ?h tile ! 0 = tvalue (removed ! 0)" "chow_choice ?h tile ! 1 = tvalue (removed ! 1)"
      using m by (metis nth_map zero_less_numeral, metis nth_map one_less_numeral_iff semiring_norm(76))
    ultimately show ?thesis by simp
  qed
  show ?thesis
    apply (rule exI[of _ g'], rule exI[of _ removed])
    using g' t(2-5) pile low by (simp add: mset_sortHand)
qed

lemma chow_facts: "chow_choice hand0 claimed = [3, 4]" "length hand0 = 13"
  by code_simp+

theorem claim_resolution_witness:
  "map_option currentTurn (game (performAction window window 0 Chow)) = Some 0
   \<and> map_option phase (game (performAction window window 0 Chow)) = Some Playing
   \<and> map_option lastDiscard (game (performAction window window 0 Chow)) = Some None
   \<and> map_option (\<lambda>g. length (hand (players g ! 0))) (game (performAction window window 0 Chow)) = Some 11
   \<and> map_option (\<lambda>g. map (\<lambda>m. (mtype m, map tvalue (tiles m), fromPlayer m)) (melds (players g ! 0)))
        (game (performAction window window 0 Chow)) = Some [(Chow, [5, 3, 4], Some 3)]
   \<and> map_option (\<lambda>g. discards (players g ! 3)) (game (performAction window window 0 Chow)) = Some pile3"
proof -
  have h: "game window = Some window_game" "lastDiscard window_game = Some (claimed, 3)"
    "0 < length (players window_game)" "3 < length (players window_game)" "(0::nat) \<noteq> 3"
    "discards (players window_game ! 3) \<noteq> []" "last (discards (players window_game ! 3)) = claimed"
    "Chow = Pung \<or> Chow = Kong \<or> Chow = Chow"
    "Chow \<in> set (possibleActions (players window_game ! 0) claimed 3)"
    by (simp_all add: window_def window_game_def endgame_game_def claims_offered)
  from claim_resolution[OF h] obtain g' removed where r:
    "game (performAction window window 0 Chow) = Some g'" "length removed = 2"
    "mset (hand (players window_game ! 0)) = mset (hand (players g' ! 0)) + mset removed"
    "map tvalue removed = chow_choice (hand (players window_game ! 0)) claimed"
    "melds (players g' ! 0) = melds (players window_game ! 0)
          @ [\<lparr>mtype = Chow, tiles = claimed # removed, fromPlayer = Some 3\<rparr>]"
    "discards (players g' ! 3) = butlast (discards (players window_game ! 3))"
    "currentTurn g' = 0" "lastDiscard g' = None" "phase g' = Playing"
    by auto
  have h0: "hand (players window_game ! 0) = hand0" "melds (players window_game ! 0) = []"
    "discards (players window_game ! 3) = pile3 @ [claimed]" "tvalue claimed = 5"
    by (simp_all add: window_game_def endgame_game_def claimed_def tileOf_def)
  from r(3) have "size (mset hand0) = size (mset (hand (players g' ! 0))) + size (mset removed)"
    unfolding h0 by (metis size_union)
  then have len: "length (hand (players g' ! 0)) = 11"
    using r(2) chow_facts(2) by simp
  from r len show ?thesis
    unfolding h0(1-3) by (simp add: chow_facts h0(4))
qed

section \<open>The keys of the multiplicity map\<close>

text \<open>
  The printed key determines the kind, and within a suit the keys of the values 0 to 9
  are ordered as the values are.
\<close>

lemma of_char_digit: "a < 10 \<Longrightarrow> of_char (digit_char a) = (48 + a :: nat)"
  by (simp add: digit_char_def)

lemma digit_char_inj: "a < 10 \<Longrightarrow> b < 10 \<Longrightarrow> digit_char a = digit_char b \<Longrightarrow> a = b"
proof -
  assume a: "a < 10" and b: "b < 10" and e: "digit_char a = digit_char b"
  from e have "(of_char (digit_char a) :: nat) = of_char (digit_char b)" by simp
  then show ?thesis unfolding of_char_digit[OF a] of_char_digit[OF b] by simp
qed

lemma digit_char_less: "a < 10 \<Longrightarrow> b < 10 \<Longrightarrow> digit_char a < digit_char b \<longleftrightarrow> a < b"
  by (simp add: less_char_def of_char_digit)

lemma digit_char_not_dash: "a < 10 \<Longrightarrow> digit_char a \<noteq> CHR ''-''"
proof
  assume a: "a < 10" and e: "digit_char a = CHR ''-''"
  from e have "(of_char (digit_char a) :: nat) = of_char (CHR ''-'')" by simp
  then show False unfolding of_char_digit[OF a] by simp
qed

lemma digits_nonempty: "digits n \<noteq> []"
  by (subst digits.simps) simp

lemma digits_small: "n < 10 \<Longrightarrow> digits n = [digit_char n]"
  by (subst digits.simps) simp

lemma digits_large: "\<not> n < 10 \<Longrightarrow> digits n = digits (n div 10) @ [digit_char (n mod 10)]"
  by (subst digits.simps) simp

lemma digits_inj: "digits n = digits m \<Longrightarrow> n = m"
proof (induction n arbitrary: m rule: digits.induct)
  case (1 n)
  show ?case
  proof (cases "n < 10")
    case True
    show ?thesis
    proof (cases "m < 10")
      case True
      with \<open>n < 10\<close> "1.prems" show ?thesis by (simp add: digits_small digit_char_inj)
    next
      case False
      with \<open>n < 10\<close> "1.prems" digits_nonempty[of "m div 10"] show ?thesis
        by (simp add: digits_small digits_large)
    qed
  next
    case False
    show ?thesis
    proof (cases "m < 10")
      case True
      with False "1.prems" digits_nonempty[of "n div 10"] show ?thesis
        by (simp add: digits_small digits_large)
    next
      case mf: False
      from False mf "1.prems" have e: "digits (n div 10) = digits (m div 10)"
        "digit_char (n mod 10) = digit_char (m mod 10)"
        by (simp_all add: digits_large)
      from "1.IH"[OF False e(1)] have "n div 10 = m div 10" .
      moreover from e(2) have "n mod 10 = m mod 10" by (intro digit_char_inj) simp_all
      ultimately show ?thesis by (metis div_mult_mod_eq)
    qed
  qed
qed

lemma digits_no_dash: "CHR ''-'' \<notin> set (digits n)"
proof (induction n rule: digits.induct)
  case (1 n)
  show ?case
  proof (cases "n < 10")
    case True
    then show ?thesis using digit_char_not_dash[of n] by (auto simp: digits_small)
  next
    case False
    with "1.IH" digit_char_not_dash[of "n mod 10"] show ?thesis by (auto simp: digits_large)
  qed
qed

lemma show_int_inj: "show_int i = show_int j \<Longrightarrow> i = j"
proof -
  assume e: "show_int i = show_int j"
  have hd_nonneg: "hd (show_int k) \<noteq> CHR ''-''" if "\<not> k < 0" for k
    using that digits_no_dash[of "nat k"] digits_nonempty[of "nat k"]
    by (auto simp: show_int_def dest: hd_in_set)
  have hd_neg: "hd (show_int k) = CHR ''-''" if "k < 0" for k
    using that by (simp add: show_int_def)
  consider (nn) "i < 0" "j < 0" | (pp) "\<not> i < 0" "\<not> j < 0" | (np) "i < 0" "\<not> j < 0" | (pn) "\<not> i < 0" "j < 0"
    by blast
  then show ?thesis
  proof cases
    case nn
    with e have "digits (nat (- i)) = digits (nat (- j))" by (simp add: show_int_def)
    from digits_inj[OF this] nn show ?thesis by simp
  next
    case pp
    with e have "digits (nat i) = digits (nat j)" by (simp add: show_int_def)
    from digits_inj[OF this] pp show ?thesis by simp
  next
    case np
    with hd_neg[of i] hd_nonneg[of j] e show ?thesis by simp
  next
    case pn
    with hd_neg[of j] hd_nonneg[of i] e show ?thesis by simp
  qed
qed

lemma suit_name_inj: "suit_name s @ CHR ''-'' # x = suit_name s' @ CHR ''-'' # y \<Longrightarrow> s = s' \<and> x = y"
  by (cases s; cases s') (simp_all add: suit_name_def)

lemma key_str_inj: "key_str k = key_str k' \<Longrightarrow> k = k'"
proof -
  assume e: "key_str k = key_str k'"
  obtain s v where k: "k = (s, v)" by (cases k)
  obtain s' v' where k': "k' = (s', v')" by (cases k')
  from e have "suit_name s @ CHR ''-'' # show_int v = suit_name s' @ CHR ''-'' # show_int v'"
    by (simp add: key_str_def k k')
  from suit_name_inj[OF this] show_int_inj show ?thesis by (auto simp: k k')
qed

lemma append_less_append: "(xs::string) @ ys < xs @ zs \<longleftrightarrow> ys < zs"
  by (induction xs) auto

lemma key_str_same_suit_less:
  assumes "0 \<le> v" "v < w" "w \<le> 9"
  shows "key_str (s, v) < key_str (s, w)"
proof -
  have "digit_char (nat v) < digit_char (nat w)"
    using assms by (subst digit_char_less) auto
  then have "[digit_char (nat v)] < [digit_char (nat w)]"
    by simp
  moreover have "show_int v = [digit_char (nat v)]" "show_int w = [digit_char (nat w)]"
    using assms by (simp_all add: show_int_def digits_small)
  ultimately show ?thesis
    by (simp add: key_str_def append_less_append)
qed

section \<open>The multiplicity map as a multiset\<close>

lemma count_concat_replicate_f:
  "distinct ks \<Longrightarrow>
   count (mset (concat (map (\<lambda>k. replicate (f k) k) ks))) x = (if x \<in> set ks then f x else 0)"
  by (induction ks) auto

lemma cget_absent: "k \<notin> fst ` set c \<Longrightarrow> cget c k = 0"
  using cget_pos_in[of c k] by auto

lemma count_cmset [simp]: "count (cmset c) k = cget c k"
  unfolding cmset_def using cget_absent[of k c]
  by (simp add: count_concat_replicate_f)

lemma set_positive_keys: "set (positive_keys c) = set_mset (cmset c)"
proof -
  have "k \<in> set (positive_keys c) \<longleftrightarrow> k \<in># cmset c" for k
    using cget_pos_in[of c k] by (auto simp: positive_keys_def count_greater_zero_iff[symmetric] simp del: count_greater_zero_iff)
  then show ?thesis by blast
qed

lemma positive_keys_empty: "positive_keys c = [] \<longleftrightarrow> cmset c = {#}"
  using set_positive_keys[of c] by (metis set_empty set_mset_eq_empty_iff)

lemma hd_sort_key_min:
  assumes "xs \<noteq> []"
  shows "hd (sort_key f xs) \<in> set xs \<and> (\<forall>x\<in>set xs. f (hd (sort_key f xs)) \<le> f x)"
proof -
  let ?ys = "sort_key f xs"
  have ne: "?ys \<noteq> []" using assms by (metis length_0_conv length_sort)
  then obtain y ys where ys: "?ys = y # ys" by (cases ?ys) auto
  have hd: "hd ?ys = y" by (simp add: ys)
  have "sorted (map f ?ys)" by simp
  then have "\<forall>x\<in>set ?ys. f y \<le> f x" unfolding ys by auto
  then have 1: "\<forall>x\<in>set xs. f y \<le> f x" by simp
  have "y \<in> set ?ys" by (simp add: ys)
  then have 2: "y \<in> set xs" by simp
  from 1 2 show ?thesis unfolding hd by simp
qed

lemma firstKey_min:
  assumes "cmset c \<noteq> {#}"
  shows "hd (positive_keys c) \<in># cmset c
       \<and> (\<forall>k\<in>#cmset c. key_str (hd (positive_keys c)) \<le> key_str k)"
proof -
  let ?xs = "filter (\<lambda>k. cget c k > 0) (map fst c)"
  have s: "set ?xs = set_mset (cmset c)"
    using set_positive_keys[of c] by (simp add: positive_keys_def)
  with assms have "?xs \<noteq> []" by (metis set_empty set_mset_eq_empty_iff)
  from hd_sort_key_min[OF this, of key_str] show ?thesis
    unfolding s by (simp add: positive_keys_def)
qed

lemma cmset_cput: "count (cmset (cput c k n)) x = (if x = k then n else cget c x)"
  by (simp add: cget_cput)

lemma cmset_take:
  assumes "n \<le> cget c k"
  shows "cmset (cput c k (cget c k - n)) + replicate_mset n k = cmset c"
  using assms by (intro multiset_eqI) (simp add: cget_cput)

lemma cmset_take_sequence:
  assumes "0 < cget c k1" "0 < cget c k2" "0 < cget c k3" "k1 \<noteq> k2" "k1 \<noteq> k3" "k2 \<noteq> k3"
  shows "cmset (cput (cput (cput c k1 (cget c k1 - 1)) k2 (cget c k2 - 1)) k3 (cget c k3 - 1))
           + {#k1, k2, k3#} = cmset c"
  using assms by (intro multiset_eqI) (auto simp: cget_cput)

lemma cget_tally_foldl:
  "cget (foldl (\<lambda>c t. cput c (kind_of t) (cget c (kind_of t) + 1)) c0 ts) k
     = cget c0 k + count (mset (map kind_of ts)) k"
  by (induction ts arbitrary: c0) (auto simp: cget_cput)

lemma cget_Nil: "cget [] k = 0"
  by (simp add: cget_def)

lemma cmset_tally: "cmset (tally ts) = mset (map kind_of ts)"
proof (intro multiset_eqI)
  fix k
  show "count (cmset (tally ts)) k = count (mset (map kind_of ts)) k"
    using cget_tally_foldl[of "[]" ts k] by (simp add: tally_def cget_Nil)
qed

section \<open>Decompositions into groups\<close>

lemma size_group: "is_group g \<Longrightarrow> size g = 3"
  by (auto simp: is_group_def is_triplet_def is_sequence_def)

lemma decomposes_empty: "decomposes {#} n \<longleftrightarrow> n = 0"
proof
  assume "decomposes {#} n"
  then obtain gs where gs: "\<forall>g\<in>set gs. is_group g" "int (length gs) = n" "{#} = sum_list gs"
    by (auto simp: decomposes_def)
  have "gs = []"
  proof (cases gs)
    case (Cons g gs')
    with gs(1) have "size g = 3" by (simp add: size_group)
    with gs(3) Cons show ?thesis by auto
  qed simp
  with gs(2) show "n = 0" by simp
next
  assume "n = 0"
  then show "decomposes {#} n" by (auto simp: decomposes_def intro: exI[of _ "[]"])
qed

lemma decomposes_add: "is_group g \<Longrightarrow> decomposes M n \<Longrightarrow> decomposes (g + M) (n + 1)"
proof -
  assume g: "is_group g" and "decomposes M n"
  then obtain gs where gs: "\<forall>g\<in>set gs. is_group g" "int (length gs) = n" "M = sum_list gs"
    by (auto simp: decomposes_def)
  with g show ?thesis
    unfolding decomposes_def by (intro exI[of _ "g # gs"]) simp
qed

lemma in_sum_list: "k \<in># sum_list gs \<Longrightarrow> \<exists>g\<in>set gs. k \<in># g"
  by (induction gs) auto

lemma sum_list_remove1: "g \<in> set gs \<Longrightarrow> sum_list gs = (g::'a multiset) + sum_list (remove1 g gs)"
  by (induction gs) (auto simp: ac_simps)

lemma decomposes_split:
  assumes "decomposes M n" and "k \<in># M"
  shows "\<exists>g M'. is_group g \<and> k \<in># g \<and> M = g + M' \<and> decomposes M' (n - 1)"
proof -
  from assms(1) obtain gs where gs: "\<forall>g\<in>set gs. is_group g" "int (length gs) = n" "M = sum_list gs"
    unfolding decomposes_def by blast
  from assms(2) have "k \<in># sum_list gs" unfolding gs(3) .
  from in_sum_list[OF this] obtain g where g: "g \<in> set gs" "k \<in># g" by blast
  have all: "\<forall>x\<in>set (remove1 g gs). is_group x"
  proof
    fix x assume "x \<in> set (remove1 g gs)"
    then have "x \<in> set gs" using set_remove1_subset[of g gs] by (rule_tac subsetD)
    with gs(1) show "is_group x" by simp
  qed
  have len: "int (length (remove1 g gs)) = n - 1"
  proof (cases gs)
    case Nil
    with g(1) show ?thesis by simp
  next
    case (Cons a as)
    have "length (remove1 g gs) = length gs - 1" using g(1) by (simp add: length_remove1)
    with Cons gs(2) show ?thesis by simp
  qed
  have d: "decomposes (sum_list (remove1 g gs)) (n - 1)"
    unfolding decomposes_def using all len by (intro exI[of _ "remove1 g gs"]) simp
  have m: "M = g + sum_list (remove1 g gs)"
    using gs(3) sum_list_remove1[OF g(1)] by simp
  have ig: "is_group g" using gs(1) g(1) by simp
  show ?thesis
    using ig g(2) m d by (intro exI[of _ g] exI[of _ "sum_list (remove1 g gs)"]) simp
qed

section \<open>The search\<close>

lemma checkStandard_step:
  "checkStandard c m =
     (if cmset c = {#} then m = 0
      else
        (3 \<le> cget c (hd (positive_keys c))
          \<and> checkStandard (cput c (hd (positive_keys c)) (cget c (hd (positive_keys c)) - 3)) (m - 1))
        \<or> (\<exists>s v. hd (positive_keys c) = (s, v) \<and> numeric s \<and> 0 \<le> v \<and> v \<le> 7
              \<and> 0 < cget c (s, v + 1) \<and> 0 < cget c (s, v + 2)
              \<and> checkStandard
                   (cput (cput (cput c (s, v) (cget c (s, v) - 1)) (s, v + 1) (cget c (s, v + 1) - 1))
                      (s, v + 2) (cget c (s, v + 2) - 1)) (m - 1)))"
  by (subst checkStandard.simps)
     (auto simp: Let_def positive_keys_empty parseInt_value_def split: prod.splits)

lemma digit_values_sub: "digit_values (A + B) \<Longrightarrow> digit_values A"
  by (auto simp: digit_values_def)

lemma checkStandard_iff:
  assumes "digit_values (cmset c)"
  shows "checkStandard c m \<longleftrightarrow> decomposes (cmset c) m"
  using assms
proof (induction "size (cmset c)" arbitrary: c m rule: less_induct)
  case less
  let ?M = "cmset c"
  show ?case
  proof (cases "?M = {#}")
    case True
    then show ?thesis by (subst checkStandard_step) (simp add: decomposes_empty)
  next
    case False
    let ?k = "hd (positive_keys c)"
    from firstKey_min[OF False] have kin: "?k \<in># ?M"
      and kmin: "\<forall>k\<in>#?M. key_str ?k \<le> key_str k" by blast+
    let ?c1 = "cput c ?k (cget c ?k - 3)"
    have trip: "cmset ?c1 + {#?k, ?k, ?k#} = ?M" if "3 \<le> cget c ?k"
      using cmset_take[OF that] by (simp add: eval_nat_numeral)
    have ih1: "checkStandard ?c1 (m - 1) \<longleftrightarrow> decomposes (cmset ?c1) (m - 1)" if "3 \<le> cget c ?k"
    proof (rule less.hyps)
      show "size (cmset ?c1) < size ?M" using arg_cong[OF trip[OF that], of size] by simp
      show "digit_values (cmset ?c1)" using less.prems trip[OF that] digit_values_sub by metis
    qed
    have seq: "cmset (cput (cput (cput c (s, v) (cget c (s, v) - 1)) (s, v + 1) (cget c (s, v + 1) - 1))
                      (s, v + 2) (cget c (s, v + 2) - 1)) + {#(s, v), (s, v + 1), (s, v + 2)#} = ?M"
      if "?k = (s, v)" "0 < cget c (s, v + 1)" "0 < cget c (s, v + 2)" for s v
    proof -
      from kin that(1) have "0 < cget c (s, v)" by (simp flip: count_cmset)
      from cmset_take_sequence[OF this that(2,3)] show ?thesis by simp
    qed
    have ih3: "checkStandard (cput (cput (cput c (s, v) (cget c (s, v) - 1)) (s, v + 1) (cget c (s, v + 1) - 1))
                      (s, v + 2) (cget c (s, v + 2) - 1)) (m - 1)
         \<longleftrightarrow> decomposes (cmset (cput (cput (cput c (s, v) (cget c (s, v) - 1)) (s, v + 1) (cget c (s, v + 1) - 1))
                      (s, v + 2) (cget c (s, v + 2) - 1))) (m - 1)"
      if "?k = (s, v)" "0 < cget c (s, v + 1)" "0 < cget c (s, v + 2)" for s v
    proof (rule less.hyps)
      show "size (cmset (cput (cput (cput c (s, v) (cget c (s, v) - 1)) (s, v + 1) (cget c (s, v + 1) - 1))
                      (s, v + 2) (cget c (s, v + 2) - 1))) < size ?M"
        using arg_cong[OF seq[OF that], of size] by simp
      show "digit_values (cmset (cput (cput (cput c (s, v) (cget c (s, v) - 1)) (s, v + 1) (cget c (s, v + 1) - 1))
                      (s, v + 2) (cget c (s, v + 2) - 1)))"
        using less.prems seq[OF that] digit_values_sub by metis
    qed
    show ?thesis
    proof
      assume "checkStandard c m"
      then consider (t) "3 \<le> cget c ?k" "checkStandard ?c1 (m - 1)"
        | (s) s v where "?k = (s, v)" "numeric s" "0 < cget c (s, v + 1)" "0 < cget c (s, v + 2)"
            "checkStandard (cput (cput (cput c (s, v) (cget c (s, v) - 1)) (s, v + 1) (cget c (s, v + 1) - 1))
                      (s, v + 2) (cget c (s, v + 2) - 1)) (m - 1)"
        using False by (subst (asm) checkStandard_step) auto
      then show "decomposes ?M m"
      proof cases
        case t
        from ih1[OF t(1)] t(2) have d: "decomposes (cmset ?c1) (m - 1)" by simp
        have grp: "is_group {#?k, ?k, ?k#}"
          unfolding is_group_def is_triplet_def by blast
        have "{#?k, ?k, ?k#} + cmset ?c1 = ?M"
          using trip[OF t(1)] by (simp only: union_commute)
        with decomposes_add[OF grp d] show ?thesis by simp
      next
        case s
        from ih3[OF s(1,3,4)] s(5) have "decomposes (cmset (cput (cput (cput c (s, v) (cget c (s, v) - 1)) (s, v + 1) (cget c (s, v + 1) - 1))
                      (s, v + 2) (cget c (s, v + 2) - 1))) (m - 1)" by simp
        then have d: "decomposes (cmset (cput (cput (cput c (s, v) (cget c (s, v) - 1)) (s, v + 1) (cget c (s, v + 1) - 1))
                      (s, v + 2) (cget c (s, v + 2) - 1))) (m - 1)" .
        have grp: "is_group {#(s, v), (s, v + 1), (s, v + 2)#}"
          unfolding is_group_def is_sequence_def using s(2) by blast
        have "{#(s, v), (s, v + 1), (s, v + 2)#}
               + cmset (cput (cput (cput c (s, v) (cget c (s, v) - 1)) (s, v + 1) (cget c (s, v + 1) - 1))
                      (s, v + 2) (cget c (s, v + 2) - 1)) = ?M"
          using seq[OF s(1,3,4)] by (simp only: union_commute)
        with decomposes_add[OF grp d] show ?thesis by simp
      qed
    next
      assume "decomposes ?M m"
      from decomposes_split[OF this kin] obtain g M' where
        g: "is_group g" "?k \<in># g" "?M = g + M'" "decomposes M' (m - 1)" by blast
      from g(1) consider (t) "is_triplet g" | (s) "is_sequence g" by (auto simp: is_group_def)
      then show "checkStandard c m"
      proof cases
        case t
        with g(2) have ge: "g = {#?k, ?k, ?k#}" by (auto simp: is_triplet_def)
        with g(3) have "3 \<le> count ?M ?k" by simp
        then have c3: "3 \<le> cget c ?k" by simp
        from trip[OF c3] g(3) ge have "cmset ?c1 = M'" by (simp add: ac_simps)
        with ih1[OF c3] g(4) have "checkStandard ?c1 (m - 1)" by simp
        with c3 False show ?thesis by (subst checkStandard_step) simp
      next
        case s
        then obtain su v where sv: "numeric su" "g = {#(su, v), (su, v + 1), (su, v + 2)#}"
          by (auto simp: is_sequence_def)
        from sv(2) g(3) have mem: "(su, v) \<in># ?M" "(su, v + 1) \<in># ?M" "(su, v + 2) \<in># ?M" by simp_all
        from less.prems mem sv(1) have rng: "0 \<le> v" "v + 2 \<le> 9"
          by (auto simp: digit_values_def)
        from kmin mem(1) have le: "key_str ?k \<le> key_str (su, v)" by blast
        have keq: "?k = (su, v)"
        proof (rule ccontr)
          assume "?k \<noteq> (su, v)"
          with g(2) sv(2) have "?k = (su, v + 1) \<or> ?k = (su, v + 2)" by auto
          then have "key_str (su, v) < key_str ?k"
            using key_str_same_suit_less[of v "v + 1" su] key_str_same_suit_less[of v "v + 2" su] rng
            by auto
          with le show False by simp
        qed
        from mem have pos: "0 < cget c (su, v + 1)" "0 < cget c (su, v + 2)" by (simp_all flip: count_cmset)
        from seq[OF keq pos] g(3) sv(2)
        have "cmset (cput (cput (cput c (su, v) (cget c (su, v) - 1)) (su, v + 1) (cget c (su, v + 1) - 1))
                      (su, v + 2) (cget c (su, v + 2) - 1)) = M'" by (simp add: ac_simps)
        with ih3[OF keq pos] g(4)
        have "checkStandard (cput (cput (cput c (su, v) (cget c (su, v) - 1)) (su, v + 1) (cget c (su, v + 1) - 1))
                      (su, v + 2) (cget c (su, v + 2) - 1)) (m - 1)" by simp
        with keq sv(1) rng pos False show ?thesis
          by (subst checkStandard_step) auto
      qed
    qed
  qed
qed

lemma canHu_unfold:
  "canHu hand_tiles ms \<longleftrightarrow> length hand_tiles mod 3 = 2
     \<and> (\<exists>key\<in>fst ` set (tally hand_tiles). 2 \<le> cget (tally hand_tiles) key
           \<and> checkStandard (cput (tally hand_tiles) key (cget (tally hand_tiles) key - 2))
                ((int (length hand_tiles) - 2) div 3))"
  by (auto simp: canHu_def Let_def list_ex_iff)

lemma pair_taken:
  assumes "2 \<le> cget c k"
  shows "cmset (cput c k (cget c k - 2)) + {#k, k#} = cmset c"
  using cmset_take[OF assms] by (simp add: eval_nat_numeral)

lemma canHu_iff_shape:
  assumes "digit_values (mset (map kind_of hand_tiles))"
  shows "canHu hand_tiles ms \<longleftrightarrow>
           length hand_tiles mod 3 = 2 \<and> winning_shape (mset (map kind_of hand_tiles))"
proof -
  let ?c = "tally hand_tiles" and ?M = "mset (map kind_of hand_tiles)"
  let ?n = "(int (length hand_tiles) - 2) div 3"
  have M: "cmset ?c = ?M" by (rule cmset_tally)
  have sz: "size ?M = length hand_tiles" by simp
  have n: "?n = int ((length hand_tiles - 2) div 3)" if "2 \<le> length hand_tiles"
    using that by (simp add: of_nat_diff zdiv_int)
  show ?thesis
  proof
    assume "canHu hand_tiles ms"
    then obtain key where key: "length hand_tiles mod 3 = 2" "2 \<le> cget ?c key"
      "checkStandard (cput ?c key (cget ?c key - 2)) ?n"
      unfolding canHu_unfold by blast
    let ?c2 = "cput ?c key (cget ?c key - 2)"
    have p: "cmset ?c2 + {#key, key#} = ?M" using pair_taken[OF key(2)] M by simp
    then have dv: "digit_values (cmset ?c2)" using assms digit_values_sub by metis
    from checkStandard_iff[OF dv] key(3) obtain gs where
      gs: "\<forall>g\<in>set gs. is_group g" "int (length gs) = ?n" "cmset ?c2 = sum_list gs"
      unfolding decomposes_def by blast
    from arg_cong[OF p, of size] have "2 \<le> length hand_tiles" by simp
    from n[OF this] gs(2) have len: "length gs = (size ?M - 2) div 3" by simp
    have "?M = {#key, key#} + sum_list gs" using p gs(3) by (simp only: union_commute)
    moreover have "is_pair {#key, key#}" unfolding is_pair_def by blast
    ultimately have "winning_shape ?M"
      unfolding winning_shape_def using gs(1) len by blast
    with key(1) show "length hand_tiles mod 3 = 2 \<and> winning_shape ?M" by simp
  next
    assume a: "length hand_tiles mod 3 = 2 \<and> winning_shape ?M"
    then obtain p gs where w: "is_pair p" "\<forall>g\<in>set gs. is_group g"
      "length gs = (size ?M - 2) div 3" "?M = p + sum_list gs"
      unfolding winning_shape_def by blast
    from w(1) obtain k where k: "p = {#k, k#}" unfolding is_pair_def by blast
    from w(4) k have "2 \<le> count ?M k" by simp
    then have c2: "2 \<le> cget ?c k" unfolding M[symmetric] by simp
    then have kin: "k \<in> fst ` set ?c" using cget_pos_in[of ?c k] by simp
    let ?c2 = "cput ?c k (cget ?c k - 2)"
    have p: "cmset ?c2 + {#k, k#} = ?M" using pair_taken[OF c2] M by simp
    with w(4) k have e: "cmset ?c2 = sum_list gs" by (simp add: union_commute)
    from p have dv: "digit_values (cmset ?c2)" using assms digit_values_sub by metis
    from arg_cong[OF p, of size] have "2 \<le> length hand_tiles" by simp
    from n[OF this] w(3) have "int (length gs) = ?n" by simp
    with e w(2) have "decomposes (cmset ?c2) ?n" unfolding decomposes_def by blast
    with checkStandard_iff[OF dv] have "checkStandard ?c2 ?n" by simp
    with a c2 kin show "canHu hand_tiles ms" unfolding canHu_unfold by blast
  qed
qed

lemma valid_digit_values:
  "\<forall>t\<in>set hand_tiles. valid_kind (kind_of t) \<Longrightarrow> digit_values (mset (map kind_of hand_tiles))"
  by (auto simp: digit_values_def valid_kind_def)

text \<open>
  C1. For a hand of tiles with the values of the data model, \<open>canHu\<close> returns true iff
  the number of tiles is 2 modulo 3 and the kinds of the hand split into one pair and
  \<open>(n - 2) / 3\<close> groups, each a triplet of one kind or three consecutive values of one
  numeric suit.
\<close>

theorem canHu_iff_winning_shape:
  assumes "\<forall>t\<in>set hand_tiles. valid_kind (kind_of t)"
  shows "canHu hand_tiles ms \<longleftrightarrow>
           length hand_tiles mod 3 = 2 \<and> winning_shape (mset (map kind_of hand_tiles))"
  using canHu_iff_shape[OF valid_digit_values[OF assms]] .

lemma win_hand_facts:
  "canHu win_hand [] = True" "list_all (\<lambda>t. valid_kind (kind_of t)) win_hand"
  "list_all (\<lambda>t. valid_kind (kind_of t)) lone_dragon_hand" "length lone_dragon_hand = 13"
  "length win_hand = 14"
  by code_simp+

theorem canHu_iff_winning_shape_witness:
  "canHu win_hand [] \<and> winning_shape (mset (map kind_of win_hand))
   \<and> \<not> canHu lone_dragon_hand []"
proof -
  have v: "\<forall>t\<in>set win_hand. valid_kind (kind_of t)"
    "\<forall>t\<in>set lone_dragon_hand. valid_kind (kind_of t)"
    using win_hand_facts(2,3) by (simp_all add: list_all_iff)
  from canHu_iff_winning_shape[OF v(1), of "[]"] canHu_iff_winning_shape[OF v(2), of "[]"]
  show ?thesis using win_hand_facts(1,4) by simp
qed

section \<open>Order of the hand, and the melds\<close>

lemma hd_positive_keys_cong:
  assumes "cmset c = cmset c'" and "cmset c \<noteq> {#}"
  shows "hd (positive_keys c) = hd (positive_keys c')"
proof -
  from firstKey_min[OF assms(2)] firstKey_min[of c'] assms
  have "key_str (hd (positive_keys c)) \<le> key_str (hd (positive_keys c'))"
       "key_str (hd (positive_keys c')) \<le> key_str (hd (positive_keys c))"
    by auto
  then have "key_str (hd (positive_keys c)) = key_str (hd (positive_keys c'))" by simp
  then show ?thesis by (rule key_str_inj)
qed

lemma cget_cong: "cmset c = cmset c' \<Longrightarrow> cget c k = cget c' k"
  by (metis count_cmset)

lemma cmset_cput_cong:
  assumes "cmset c = cmset c'"
  shows "cmset (cput c k n) = cmset (cput c' k n)"
proof (intro multiset_eqI)
  fix x
  show "count (cmset (cput c k n)) x = count (cmset (cput c' k n)) x"
    using cget_cong[OF assms, of x] by (simp add: cget_cput)
qed

lemma checkStandard_cong:
  "cmset c = cmset c' \<Longrightarrow> checkStandard c m = checkStandard c' m"
proof (induction "size (cmset c)" arbitrary: c c' m rule: less_induct)
  case less
  note e = less.prems
  show ?case
  proof (cases "cmset c = {#}")
    case True
    with e show ?thesis by (simp add: checkStandard_step[of c] checkStandard_step[of c'])
  next
    case False
    let ?k = "hd (positive_keys c)"
    have k: "hd (positive_keys c') = ?k" using hd_positive_keys_cong[OF e False] by simp
    from firstKey_min[OF False] have kin: "0 < cget c ?k" by (simp flip: count_cmset)
    have t: "checkStandard (cput c ?k (cget c ?k - 3)) (m - 1)
           = checkStandard (cput c' ?k (cget c' ?k - 3)) (m - 1)" if "3 \<le> cget c ?k"
    proof -
      have "size (cmset (cput c ?k (cget c ?k - 3))) < size (cmset c)"
        using arg_cong[OF cmset_take[OF that], of size] by simp
      from less.hyps[OF this cmset_cput_cong[OF e]] show ?thesis by (simp add: cget_cong[OF e])
    qed
    have s: "checkStandard (cput (cput (cput c (s, v) (cget c (s, v) - 1)) (s, v + 1) (cget c (s, v + 1) - 1))
                      (s, v + 2) (cget c (s, v + 2) - 1)) (m - 1)
           = checkStandard (cput (cput (cput c' (s, v) (cget c' (s, v) - 1)) (s, v + 1) (cget c' (s, v + 1) - 1))
                      (s, v + 2) (cget c' (s, v + 2) - 1)) (m - 1)"
      if "?k = (s, v)" "0 < cget c (s, v + 1)" "0 < cget c (s, v + 2)" for s v
    proof -
      from kin that(1) have "0 < cget c (s, v)" by simp
      from cmset_take_sequence[OF this that(2,3)]
      have "cmset (cput (cput (cput c (s, v) (cget c (s, v) - 1)) (s, v + 1) (cget c (s, v + 1) - 1))
                      (s, v + 2) (cget c (s, v + 2) - 1)) + {#(s, v), (s, v + 1), (s, v + 2)#} = cmset c"
        by simp
      from arg_cong[OF this, of size]
      have "size (cmset (cput (cput (cput c (s, v) (cget c (s, v) - 1)) (s, v + 1) (cget c (s, v + 1) - 1))
                      (s, v + 2) (cget c (s, v + 2) - 1))) < size (cmset c)"
        by simp
      from less.hyps[OF this cmset_cput_cong[OF cmset_cput_cong[OF cmset_cput_cong[OF e]]]]
      show ?thesis by (simp add: cget_cong[OF e])
    qed
    show ?thesis
      unfolding checkStandard_step[of c m] checkStandard_step[of c' m] k
      using False e t s by (auto simp: cget_cong[OF e])
  qed
qed

text \<open>
  C8. Two hands with the same multiset of kinds, in particular a hand and a permutation
  of it, get the same answer, whatever the two lists of melds are.
\<close>

theorem canHu_multiset_invariant:
  assumes "mset (map kind_of h1) = mset (map kind_of h2)"
  shows "canHu h1 ms1 = canHu h2 ms2"
proof -
  have e: "cmset (tally h1) = cmset (tally h2)" using assms by (simp add: cmset_tally)
  have len: "length h1 = length h2" using arg_cong[OF assms, of size] by simp
  have dir: "\<exists>key\<in>fst ` set cb. 2 \<le> cget cb key \<and> checkStandard (cput cb key (cget cb key - 2)) n"
    if eq: "cmset ca = cmset cb"
      and ex: "\<exists>key\<in>fst ` set ca. 2 \<le> cget ca key \<and> checkStandard (cput ca key (cget ca key - 2)) n"
    for ca cb n
  proof -
    from ex obtain key where key: "2 \<le> cget ca key" "checkStandard (cput ca key (cget ca key - 2)) n"
      by blast
    have g: "cget cb key = cget ca key" using cget_cong[OF eq, of key] by simp
    with key(1) have "0 < cget cb key" by simp
    then have 1: "key \<in> fst ` set cb" by (rule cget_pos_in)
    have 2: "checkStandard (cput cb key (cget cb key - 2)) n"
      using checkStandard_cong[OF cmset_cput_cong[OF eq], of key "cget ca key - 2" n] key(2) g by simp
    have 3: "2 \<le> cget cb key" using key(1) g by simp
    from 1 2 3 show ?thesis by blast
  qed
  show ?thesis
    unfolding canHu_unfold len using dir[OF e] dir[OF e[symmetric]] by blast
qed

theorem canHu_multiset_invariant_witness:
  "canHu (rev win_hand) [\<lparr>mtype = Pung, tiles = [], fromPlayer = None\<rparr>] = canHu win_hand []"
proof -
  have "mset (map kind_of (rev win_hand)) = mset (map kind_of win_hand)" by simp
  from canHu_multiset_invariant[OF this] show ?thesis .
qed

section \<open>Conservation of the tiles\<close>

text \<open>
  The session start and every transition taken from the current render leave the tiles of
  the game as they are: a discard, a claim that is in the pending actions, a pass, the AI
  turn and the AI response, a self-drawn win, and the draws from a wall that is not empty.
\<close>

lemma sum_list_update:
  fixes F :: "'a \<Rightarrow> 'b multiset"
  shows "i < length xs \<Longrightarrow> sum_list (map F (xs[i := y])) + F (xs ! i) = sum_list (map F xs) + F y"
proof (induction xs arbitrary: i)
  case Nil
  then show ?case by simp
next
  case (Cons x xs)
  then show ?case by (cases i) (auto simp: ac_simps)
qed

lemma all_tiles_update:
  assumes "i < length (players g)"
    and "mset d' + player_tiles q = mset (deck g) + player_tiles (players g ! i)"
  shows "all_tiles (g\<lparr>deck := d', players := (players g)[i := q]\<rparr>) = all_tiles g"
proof -
  from sum_list_update[OF assms(1), of player_tiles q]
  have "sum_list (map player_tiles ((players g)[i := q])) + player_tiles (players g ! i)
        = sum_list (map player_tiles (players g)) + player_tiles q" .
  then have "mset d' + sum_list (map player_tiles ((players g)[i := q])) + player_tiles (players g ! i)
        = mset (deck g) + sum_list (map player_tiles (players g)) + player_tiles (players g ! i)"
    using assms(2) by (metis (no_types, lifting) add.assoc add.commute add.left_commute)
  then show ?thesis by (simp add: all_tiles_def)
qed

lemma all_tiles_fields [simp]:
  "all_tiles (g\<lparr>phase := ph\<rparr>) = all_tiles g"
  "all_tiles (g\<lparr>winner := w\<rparr>) = all_tiles g"
  "all_tiles (g\<lparr>winType := wt\<rparr>) = all_tiles g"
  "all_tiles (g\<lparr>logs := l\<rparr>) = all_tiles g"
  "all_tiles (g\<lparr>lastDiscard := ld\<rparr>) = all_tiles g"
  "all_tiles (g\<lparr>currentTurn := ct\<rparr>) = all_tiles g"
  "all_tiles (g\<lparr>wallCount := wc\<rparr>) = all_tiles g"
  by (simp_all add: all_tiles_def)

lemma all_tiles_eqI:
  assumes "deck g' = d'" and "players g' = (players g)[i := q]" and "i < length (players g)"
    and "mset d' + player_tiles q = mset (deck g) + player_tiles (players g ! i)"
  shows "all_tiles g' = all_tiles g"
proof -
  have "all_tiles g' = all_tiles (g\<lparr>deck := d', players := (players g)[i := q]\<rparr>)"
    using assms(1,2) by (simp add: all_tiles_def)
  with all_tiles_update[OF assms(3,4)] show ?thesis by simp
qed

lemma consistentD:
  assumes "consistent st"
  obtains g where "game st = Some g" "seats_ok g" "all_tiles g = mset createDeck" "last_ok g"
    "pending_ok (pendingActions st) g" "timers_ok (timers st)"
  using assms by (auto simp: consistent_def split: option.splits)

lemma consistentI:
  "game st = Some g \<Longrightarrow> seats_ok g \<Longrightarrow> all_tiles g = mset createDeck \<Longrightarrow> last_ok g
   \<Longrightarrow> pending_ok (pendingActions st) g \<Longrightarrow> timers_ok (timers st) \<Longrightarrow> consistent st"
  by (simp add: consistent_def)

lemma responseActions_seats:
  assumes "seats_ok g" and "x \<in> set (responseActions (players g) tile d)"
  shows "fst x < 4 \<and> fst x \<noteq> d"
proof -
  from assms(2) obtain q where q: "q \<in> set (players g)" "pid q \<noteq> d" "x = (pid q, possibleActions q tile d)"
    unfolding responseActions_iff by blast
  from q(1) obtain j where "j < length (players g)" "q = players g ! j" by (auto simp: in_set_conv_nth)
  with assms(1) have "pid q < 4" by (auto simp: seats_ok_def)
  with q show ?thesis by simp
qed

lemma consistent_handleDiscard:
  assumes "consistent st" and "p < 4"
  shows "consistent (handleDiscard st p tileId)"
proof -
  from assms(1) obtain g where g: "game st = Some g" "seats_ok g" "all_tiles g = mset createDeck"
    "last_ok g" "pending_ok (pendingActions st) g" "timers_ok (timers st)" by (rule consistentD)
  show ?thesis
  proof (cases "phase g = Playing \<and> findIndex (\<lambda>t. tid t = tileId) (hand (players g ! p)) \<noteq> None")
    case False
    then have "handleDiscard st p tileId = st" using g(1) by (auto simp: handleDiscard_def)
    with assms(1) show ?thesis by simp
  next
    case True
    then obtain i where i: "phase g = Playing" "findIndex (\<lambda>t. tid t = tileId) (hand (players g ! p)) = Some i"
      by auto
    let ?P = "players g ! p"
    let ?tile = "hand ?P ! i"
    let ?P' = "?P\<lparr>hand := sortHand (splice1 i (hand ?P)), discards := discards ?P @ [?tile]\<rparr>"
    let ?g1 = "g\<lparr>players := (players g)[p := ?P'], lastDiscard := Some (?tile, p), phase := ActionWindow\<rparr>"
    let ?g2 = "addLog (pname ?P @ txt_discarded @ tname ?tile) ?g1"
    let ?st' = "checkResponseActions g ?tile p (st\<lparr>game := Some ?g2\<rparr>)"
    have eq: "handleDiscard st p tileId = ?st'" by (rule handleDiscard_accepted[OF g(1) i])
    have len: "length (players g) = 4" and p: "p < length (players g)" using g(2) assms(2) by (auto simp: seats_ok_def)
    from findIndex_Some[OF i(2)] have ilt: "i < length (hand ?P)" by simp
    have "game ?st' = Some ?g2" by simp
    moreover have "seats_ok ?g2"
      using g(2) p by (auto simp: seats_ok_def addLog_def nth_list_update)
    moreover have "all_tiles ?g2 = mset createDeck"
    proof -
      have "player_tiles ?P' = player_tiles ?P"
        using mset_splice1[OF ilt] by (simp add: player_tiles_def mset_sortHand ac_simps)
      then have "all_tiles ?g1 = all_tiles g"
        by (intro all_tiles_eqI[of _ "deck g" _ p ?P']) (simp_all add: p)
      with g(3) show ?thesis by (simp add: addLog_def)
    qed
    moreover have "last_ok ?g2"
      using assms(2) p by (simp add: last_ok_def addLog_def)
    moreover have "pending_ok (pendingActions ?st') ?g2"
    proof (cases "responseActions (players g) ?tile p = []")
      case True
      then have "pendingActions ?st' = pendingActions st" by (simp add: checkResponseActions_def)
      moreover have "pendingActions st = []" using g(5) i(1) by (simp add: pending_ok_def)
      ultimately show ?thesis by (simp add: pending_ok_def)
    next
      case False
      then have "pendingActions ?st' = responseActions (players g) ?tile p"
        by (simp add: checkResponseActions_def)
      with responseActions_seats[OF g(2)] show ?thesis
        by (auto simp: pending_ok_def addLog_def)
    qed
    moreover have "timers_ok (timers ?st')"
      using g(6) by (auto simp: checkResponseActions_def timers_ok_def Let_def)
    ultimately show ?thesis unfolding eq by (rule consistentI)
  qed
qed

lemma spliceAll_conserve:
  assumes "sorted_wrt (<) js" and "\<forall>j\<in>set js. j < length h"
  shows "mset (fst (spliceAll js (m, h))) + mset (snd (spliceAll js (m, h))) = mset m + mset h"
proof -
  from spliceAll_ascending[OF assms, of m]
  have "fst (spliceAll js (m, h)) = m @ rev (map ((!) h) js)"
    and "mset (snd (spliceAll js (m, h))) + mset (map ((!) h) js) = mset h" by simp_all
  then show ?thesis by (metis add.assoc add.commute mset_append mset_rev)
qed

lemma findAndRemove_conserve:
  "mset (fst (findAndRemove s v (m, h))) + mset (snd (findAndRemove s v (m, h))) = mset m + mset h"
proof (cases "findIndex (\<lambda>t. suit t = s \<and> tvalue t = v) h")
  case None
  then show ?thesis by (simp add: findAndRemove_def)
next
  case (Some i)
  from findIndex_Some[OF Some] have "i < length h" by simp
  from mset_splice1[OF this] Some show ?thesis
    by (simp add: findAndRemove_def add.commute add.left_commute)
qed

lemma findAndRemove_twice_conserve:
  "mset (fst (findAndRemove s w (findAndRemove s v (m, h))))
   + mset (snd (findAndRemove s w (findAndRemove s v (m, h)))) = mset m + mset h"
  using findAndRemove_conserve[of s w "fst (findAndRemove s v (m, h))" "snd (findAndRemove s v (m, h))"]
    findAndRemove_conserve[of s v m h]
  by simp

lemma takeFromHand_conserve:
  "mset (fst (takeFromHand a tile h)) + mset (snd (takeFromHand a tile h)) = {#tile#} + mset h"
proof -
  have srt: "sorted_wrt (<) (take n (sameIndices h tile))" for n
    using sameIndices_props(1)[of h tile] by (simp add: sorted_wrt_take)
  have bnd: "\<forall>j\<in>set (take n (sameIndices h tile)). j < length h" for n
    using sameIndices_props(2)[of h tile] by (auto dest: in_set_takeD)
  have all: "sameIndices h tile = take (length (sameIndices h tile)) (sameIndices h tile)" by simp
  show ?thesis
    unfolding takeFromHand_def Let_def
    using spliceAll_conserve[OF srt bnd, of 2 "[tile]"]
      spliceAll_conserve[OF srt bnd, of "length (sameIndices h tile)" "[tile]"]
      findAndRemove_twice_conserve[of "suit tile" _ _ "[tile]" h]
    by (simp flip: all)
qed

lemma mset_butlast_last: "d \<noteq> [] \<Longrightarrow> mset d = mset (butlast d) + {#last d#}"
proof -
  assume "d \<noteq> []"
  then have "d = butlast d @ [last d]" by simp
  then have "mset d = mset (butlast d @ [last d])" by (rule arg_cong)
  then show ?thesis by simp
qed

text \<open>
  A resolved pung, kong or chow puts the claimed tile into the claimant's meld and drops
  the last tile of the discarder's pile, whichever tile that is.
\<close>

lemma resolveAction_players:
  assumes "a = Pung \<or> a = Kong \<or> a = Chow"
  shows "players (resolveAction t f p a g) =
      (players g)[p := (players g ! p)\<lparr>hand := sortHand (snd (takeFromHand a t (hand (players g ! p)))),
            melds := melds (players g ! p)
              @ [\<lparr>mtype = a, tiles = fst (takeFromHand a t (hand (players g ! p))), fromPlayer = Some f\<rparr>]\<rparr>,
          f := (players g ! f)\<lparr>discards := butlast (discards (players g ! f))\<rparr>]"
    and "deck (resolveAction t f p a g) = deck g"
    and "currentTurn (resolveAction t f p a g) = p"
    and "lastDiscard (resolveAction t f p a g) = None"
  using assms by (auto simp: resolveAction_def Let_def)

lemma resolveAction_tiles:
  assumes "p < length (players g)" and "f < length (players g)" and "p \<noteq> f"
    and "discards (players g ! f) \<noteq> []" and "a = Pung \<or> a = Kong \<or> a = Chow"
  shows "all_tiles (resolveAction t f p a g) + {#last (discards (players g ! f))#}
         = all_tiles g + {#t#}"
proof -
  let ?g' = "resolveAction t f p a g"
  let ?actor = "players g ! p" and ?target = "players g ! f"
  let ?l = "last (discards ?target)"
  let ?taken = "takeFromHand a t (hand ?actor)"
  let ?A = "?actor\<lparr>hand := sortHand (snd ?taken),
              melds := melds ?actor @ [\<lparr>mtype = a, tiles = fst ?taken, fromPlayer = Some f\<rparr>]\<rparr>"
  let ?T = "?target\<lparr>discards := butlast (discards ?target)\<rparr>"
  let ?ps1 = "(players g)[p := ?A]"
  let ?ps2 = "?ps1[f := ?T]"
  have pl: "players ?g' = ?ps2" and dk: "deck ?g' = deck g"
    using resolveAction_players(1,2)[OF assms(5)] by simp_all
  have c: "mset (fst ?taken) + mset (snd ?taken) = {#t#} + mset (hand ?actor)"
    by (rule takeFromHand_conserve)
  have "player_tiles ?A = (mset (fst ?taken) + mset (snd ?taken)) + mset (discards ?actor)
          + mset (concat (map tiles (melds ?actor)))"
    by (simp add: player_tiles_def mset_sortHand)
  then have A: "player_tiles ?A = player_tiles ?actor + {#t#}"
    unfolding c by (simp add: player_tiles_def)
  have T: "player_tiles ?target = player_tiles ?T + {#?l#}"
    using mset_butlast_last[OF assms(4)] by (simp add: player_tiles_def)
  define S0 where "S0 = sum_list (map player_tiles (players g))"
  define S1 where "S1 = sum_list (map player_tiles ?ps1)"
  define S2 where "S2 = sum_list (map player_tiles ?ps2)"
  have s1: "S1 + player_tiles ?actor = S0 + player_tiles ?A"
    unfolding S0_def S1_def
    using sum_list_update[of p "players g" player_tiles ?A] assms(1) by simp
  have "?ps1 ! f = ?target" using assms(3) by simp
  then have s2: "S2 + player_tiles ?target = S1 + player_tiles ?T"
    unfolding S1_def S2_def
    using sum_list_update[of f ?ps1 player_tiles ?T] assms(2) by simp
  from s1 have "S1 + player_tiles ?actor = (S0 + {#t#}) + player_tiles ?actor"
    unfolding A by (simp only: ac_simps)
  then have e1: "S1 = S0 + {#t#}" by (simp only: add_right_cancel)
  from s2 have "(S2 + {#?l#}) + player_tiles ?T = S1 + player_tiles ?T"
    unfolding T by (simp only: ac_simps)
  then have e2: "S2 + {#?l#} = S1" by (simp only: add_right_cancel)
  from e1 e2 have "S2 + {#?l#} = S0 + {#t#}" by simp
  then have "mset (deck g) + (S2 + {#?l#}) = mset (deck g) + (S0 + {#t#})" by simp
  then show ?thesis
    unfolding S0_def S2_def by (simp add: all_tiles_def pl dk)
qed

lemma last_ok_fields [simp]:
  "last_ok (g\<lparr>phase := ph\<rparr>) = last_ok g"
  "last_ok (g\<lparr>winner := w\<rparr>) = last_ok g"
  "last_ok (g\<lparr>winType := wt\<rparr>) = last_ok g"
  "last_ok (g\<lparr>logs := l\<rparr>) = last_ok g"
  "last_ok (g\<lparr>currentTurn := ct\<rparr>) = last_ok g"
  "last_ok (g\<lparr>wallCount := wc\<rparr>) = last_ok g"
  "last_ok (g\<lparr>deck := d\<rparr>) = last_ok g"
  "last_ok (g\<lparr>lastDiscard := None\<rparr>)"
  by (simp_all add: last_ok_def split: option.splits)

lemma seats_ok_fields [simp]:
  "seats_ok (g\<lparr>phase := ph\<rparr>) = seats_ok g"
  "seats_ok (g\<lparr>winner := w\<rparr>) = seats_ok g"
  "seats_ok (g\<lparr>winType := wt\<rparr>) = seats_ok g"
  "seats_ok (g\<lparr>logs := l\<rparr>) = seats_ok g"
  "seats_ok (g\<lparr>lastDiscard := ld\<rparr>) = seats_ok g"
  "seats_ok (g\<lparr>wallCount := wc\<rparr>) = seats_ok g"
  "seats_ok (g\<lparr>deck := d\<rparr>) = seats_ok g"
  by (simp_all add: seats_ok_def)

lemma pending_ok_Nil [simp]: "pending_ok [] g"
  by (simp add: pending_ok_def)

text \<open>The commands of the current render keep the tiles and the other invariants.\<close>

lemma consistent_performAction:
  assumes "consistent st" and "(p, acts) \<in> set (pendingActions st)"
  shows "consistent (performAction st st p a)"
proof -
  from assms(1) obtain g where g: "game st = Some g" "seats_ok g" "all_tiles g = mset createDeck"
    "last_ok g" "pending_ok (pendingActions st) g" "timers_ok (timers st)" by (rule consistentD)
  from g(5) assms(2) obtain t f where ld: "lastDiscard g = Some (t, f)" and pf: "p < 4" "p \<noteq> f"
    by (fastforce simp: pending_ok_def split: option.splits)
  from g(4) ld have f: "f < 4" "discards (players g ! f) \<noteq> []" "last (discards (players g ! f)) = t"
    by (simp_all add: last_ok_def)
  have len: "length (players g) = 4" using g(2) by (simp add: seats_ok_def)
  let ?g' = "resolveAction t f p a g"
  have game': "game (performAction st st p a) = Some ?g'"
    and pend': "pendingActions (performAction st st p a) = []"
    and tim': "set (timers (performAction st st p a)) \<subseteq> set (timers st) \<union> {KongDrawTimer p}"
    using g(1) ld by (auto simp: performAction_def Let_def)
  have tok: "timers_ok (timers (performAction st st p a))"
    using tim' g(6) pf(1) by (auto simp: timers_ok_def)
  consider (hu) "a = Hu" | (take) "a = Pung \<or> a = Kong \<or> a = Chow" | (other) "a = OtherAction"
    by (cases a) auto
  then have "seats_ok ?g' \<and> all_tiles ?g' = mset createDeck \<and> last_ok ?g'"
  proof cases
    case hu
    then show ?thesis using g(2,3,4) by (simp add: resolveAction_def)
  next
    case other
    then show ?thesis using g(2,3,4) by (simp add: resolveAction_def)
  next
    case take
    note r = resolveAction_players[OF take, of t f p g]
    from resolveAction_tiles[of p g f a t] pf f(1,2) len take
    have "all_tiles ?g' + {#t#} = all_tiles g + {#t#}" by (simp add: f(3))
    then have "all_tiles ?g' = all_tiles g" by simp
    moreover have "seats_ok ?g'"
      using g(2) pf(1) f(1) by (auto simp: seats_ok_def r nth_list_update)
    moreover have "last_ok ?g'" by (simp add: last_ok_def r)
    ultimately show ?thesis using g(3) by simp
  qed
  with game' pend' tok show ?thesis by (intro consistentI[of _ ?g']) simp_all
qed

lemma consistent_passAction:
  assumes "consistent st"
  shows "consistent (passAction st st p)"
proof -
  from assms(1) obtain g where g: "game st = Some g" "seats_ok g" "all_tiles g = mset createDeck"
    "last_ok g" "pending_ok (pendingActions st) g" "timers_ok (timers st)" by (rule consistentD)
  have 1: "game (passAction st st p) = Some g" using g(1) by (auto simp: passAction_def Let_def split: option.splits)
  have 2: "set (pendingActions (passAction st st p)) \<subseteq> set (pendingActions st)"
    by (auto simp: passAction_def Let_def split: option.splits)
  have 3: "\<forall>t\<in>set (timers (passAction st st p)). t \<in> set (timers st) \<or> (\<exists>q. t = NextTurnTimer (q mod 4))"
    by (auto simp: passAction_def Let_def split: option.splits)
  have "pending_ok (pendingActions (passAction st st p)) g"
    using g(5) 2 unfolding pending_ok_def by (metis set_empty subset_empty subsetD)
  moreover have "timers_ok (timers (passAction st st p))"
    using g(6) 3 by (fastforce simp: timers_ok_def)
  ultimately show ?thesis using 1 g(2,3,4) by (intro consistentI[of _ g]) simp_all
qed

lemma consistent_game_over:
  assumes "consistent st" and "game st = Some g"
  shows "consistent (st\<lparr>game := Some (g\<lparr>phase := GameOver, winner := w, winType := wt, logs := l\<rparr>)\<rparr>)"
  using assms by (auto simp: consistent_def pending_ok_def)

lemma consistent_aiTurn:
  assumes "consistent st"
  shows "consistent (aiTurn st)"
proof -
  from assms(1) obtain g where g: "game st = Some g" "seats_ok g" by (rule consistentD)
  then have "currentTurn g < 4" by (simp add: seats_ok_def)
  from consistent_handleDiscard[OF assms this] consistent_game_over[OF assms g(1)] assms g(1)
  show ?thesis by (simp add: aiTurn_def Let_def)
qed

lemma consistent_humanSelfDraw:
  assumes "consistent st"
  shows "consistent (humanSelfDraw st)"
proof -
  from assms(1) obtain g where g: "game st = Some g" by (rule consistentD)
  from consistent_game_over[OF assms g] assms g show ?thesis by (simp add: humanSelfDraw_def)
qed

lemma consistent_aiResponse:
  assumes "consistent st"
  shows "consistent (aiResponse st)"
proof -
  from assms(1) obtain g where g: "game st = Some g" by (rule consistentD)
  show ?thesis
  proof (cases "filter (\<lambda>a. isAI (players g ! fst a)) (pendingActions st)")
    case Nil
    with g assms show ?thesis by (simp add: aiResponse_def)
  next
    case (Cons b others)
    then have "b \<in> set (filter (\<lambda>a. isAI (players g ! fst a)) (pendingActions st))" by simp
    then have "b \<in> set (pendingActions st)" by simp
    then have "(fst b, snd b) \<in> set (pendingActions st)" by simp
    from consistent_performAction[OF assms this] consistent_passAction[OF assms] assms g Cons
    show ?thesis by (simp add: aiResponse_def)
  qed
qed

lemma draw_conserves:
  assumes "deck g \<noteq> []" and "p < length (players g)"
    and "deck g' = butlast (deck g)"
    and "players g' = (players g)[p := (players g ! p)\<lparr>hand := sortHand (hand (players g ! p) @ [last (deck g)])\<rparr>]"
  shows "all_tiles g' = all_tiles g"
proof (rule all_tiles_eqI[OF assms(3,4,2)])
  show "mset (butlast (deck g))
        + player_tiles ((players g ! p)\<lparr>hand := sortHand (hand (players g ! p) @ [last (deck g)])\<rparr>)
      = mset (deck g) + player_tiles (players g ! p)"
    using mset_butlast_last[OF assms(1)] by (simp add: player_tiles_def mset_sortHand)
qed

lemma consistent_fireTimer:
  assumes "consistent st" and "t \<in> set (timers st)"
    and "fireTimer t (st\<lparr>timers := remove1 t (timers st)\<rparr>) = Inr st'"
  shows "consistent st'"
proof -
  from assms(1) obtain g where g: "game st = Some g" "seats_ok g" "all_tiles g = mset createDeck"
    "last_ok g" "pending_ok (pendingActions st) g" "timers_ok (timers st)" by (rule consistentD)
  have len: "length (players g) = 4" using g(2) by (simp add: seats_ok_def)
  have tok: "timers_ok (remove1 t (timers st))"
    using g(6) by (auto simp: timers_ok_def dest: notin_set_remove1)
  show ?thesis
  proof (cases t)
    case (NextTurnTimer p)
    with g(6) assms(2) have p: "p < 4" by (auto simp: timers_ok_def)
    from assms(3) NextTurnTimer g(1)
    have st': "st' = st\<lparr>timers := remove1 t (timers st), game := Some (drawFor p g), pendingActions := []\<rparr>"
      by (simp add: fireTimer_def nextTurn_def)
    have "seats_ok (drawFor p g) \<and> all_tiles (drawFor p g) = mset createDeck \<and> last_ok (drawFor p g)"
    proof (cases "deck g = []")
      case True
      then show ?thesis using g(2,3,4) by (simp add: drawFor_def)
    next
      case False
      let ?g' = "drawFor p g"
      have d: "deck ?g' = butlast (deck g)"
        "players ?g' = (players g)[p := (players g ! p)\<lparr>hand := sortHand (hand (players g ! p) @ [last (deck g)])\<rparr>]"
        "currentTurn ?g' = p" "lastDiscard ?g' = None"
        using False by (simp_all add: drawFor_def Let_def)
      from draw_conserves[OF False _ d(1,2)] p len g(3) have "all_tiles ?g' = mset createDeck" by simp
      moreover have "seats_ok ?g'"
        using g(2) p by (auto simp: seats_ok_def d nth_list_update)
      moreover have "last_ok ?g'" by (simp add: last_ok_def d)
      ultimately show ?thesis by simp
    qed
    then show ?thesis unfolding st' using tok by (intro consistentI[of _ "drawFor p g"]) simp_all
  next
    case (KongDrawTimer p)
    with g(6) assms(2) have p: "p < 4" by (auto simp: timers_ok_def)
    from assms(3) KongDrawTimer g(1) obtain g' where
      k: "kongReplacementDraw p g = Inr g'" and st': "st' = st\<lparr>timers := remove1 t (timers st), game := Some g'\<rparr>"
      by (auto simp: fireTimer_def split: sum.splits)
    from k have ne: "deck g \<noteq> []" by (auto simp: kongReplacementDraw_def Let_def split: if_splits)
    with k have d: "deck g' = butlast (deck g)"
      "players g' = (players g)[p := (players g ! p)\<lparr>hand := sortHand (hand (players g ! p) @ [last (deck g)])\<rparr>]"
      "currentTurn g' = currentTurn g" "lastDiscard g' = lastDiscard g" "phase g' = phase g"
      by (auto simp: kongReplacementDraw_def Let_def)
    from draw_conserves[OF ne _ d(1,2)] p len g(3) have "all_tiles g' = mset createDeck" by simp
    moreover have "seats_ok g'"
      using g(2) p by (auto simp: seats_ok_def d nth_list_update)
    moreover have "last_ok g'"
      using g(4) p len by (auto simp: last_ok_def d nth_list_update split: option.splits)
    moreover have "pending_ok (pendingActions st) g'"
      using g(5) by (simp add: pending_ok_def d)
    ultimately show ?thesis unfolding st' using tok by (intro consistentI[of _ g']) simp_all
  qed
qed

section \<open>The deal\<close>

lemma shuffle_steps:
  "\<forall>i\<in>set js. i < length a \<Longrightarrow>
   mset (foldl (\<lambda>a i. swap i (rnd i mod (i + 1)) a) a js) = mset a
   \<and> length (foldl (\<lambda>a i. swap i (rnd i mod (i + 1)) a) a js) = length a"
proof (induction js arbitrary: a)
  case Nil
  then show ?case by simp
next
  case (Cons i js)
  then have i: "i < length a" by simp
  have "rnd i mod (i + 1) < i + 1" by (rule mod_less_divisor) simp
  with i have j: "rnd i mod (i + 1) < length a" by linarith
  have m: "mset (swap i (rnd i mod (i + 1)) a) = mset a"
    unfolding swap_def using mset_swap[OF j i] by simp
  have l: "length (swap i (rnd i mod (i + 1)) a) = length a" by (simp add: swap_def)
  from Cons.prems l have "\<forall>k\<in>set js. k < length (swap i (rnd i mod (i + 1)) a)" by simp
  from Cons.IH[OF this] m l show ?case by simp
qed

lemma shuffle_permutes: "mset (shuffle rnd xs) = mset xs \<and> length (shuffle rnd xs) = length xs"
  unfolding shuffle_def by (rule shuffle_steps) simp

lemma dealOne_props:
  assumes "d \<noteq> []" and "j < length ps"
  shows "table (dealOne (d, ps) j) = table (d, ps)
       \<and> length (fst (dealOne (d, ps) j)) = length d - 1
       \<and> map pid (snd (dealOne (d, ps) j)) = map pid ps"
proof -
  let ?q = "(ps ! j)\<lparr>hand := hand (ps ! j) @ [last d]\<rparr>"
  have q: "player_tiles ?q = player_tiles (ps ! j) + {#last d#}"
    by (simp add: player_tiles_def)
  from sum_list_update[OF assms(2), of player_tiles ?q]
  have "sum_list (map player_tiles (ps[j := ?q])) + player_tiles (ps ! j)
        = (sum_list (map player_tiles ps) + {#last d#}) + player_tiles (ps ! j)"
    unfolding q by (simp only: ac_simps)
  then have "sum_list (map player_tiles (ps[j := ?q])) = sum_list (map player_tiles ps) + {#last d#}"
    by (simp only: add_right_cancel)
  then have "table (dealOne (d, ps) j) = table (d, ps)"
    using mset_butlast_last[OF assms(1)] by (simp add: table_def dealOne_def)
  moreover have "map pid (ps[j := ?q]) = map pid ps"
    by (simp add: map_update list_update_same_conv assms(2))
  ultimately show ?thesis by (simp add: dealOne_def)
qed

lemma deal_many:
  assumes "\<forall>j\<in>set js. j < length ps" and "length js \<le> length d"
  shows "table (foldl dealOne (d, ps) js) = table (d, ps)
       \<and> length (fst (foldl dealOne (d, ps) js)) = length d - length js
       \<and> map pid (snd (foldl dealOne (d, ps) js)) = map pid ps"
  using assms
proof (induction js arbitrary: d ps)
  case Nil
  then show ?case by simp
next
  case (Cons j js)
  then have ne: "d \<noteq> []" and j: "j < length ps" by auto
  obtain d' ps' where r: "dealOne (d, ps) j = (d', ps')" by (cases "dealOne (d, ps) j")
  from dealOne_props[OF ne j] r have p: "table (d', ps') = table (d, ps)" "length d' = length d - 1"
    "map pid ps' = map pid ps" by simp_all
  from p(3) have "length ps' = length ps" by (metis length_map)
  with Cons.prems p(2) have "\<forall>k\<in>set js. k < length ps'" "length js \<le> length d'" by auto
  from Cons.IH[OF this] p r show ?case by simp
qed

lemma deal_rounds:
  assumes "length ps * length xs \<le> length d"
  shows "table (foldl (\<lambda>st i. dealRound st) (d, ps) xs) = table (d, ps)
       \<and> length (fst (foldl (\<lambda>st i. dealRound st) (d, ps) xs)) = length d - length ps * length xs
       \<and> map pid (snd (foldl (\<lambda>st i. dealRound st) (d, ps) xs)) = map pid ps"
  using assms
proof (induction xs arbitrary: d ps)
  case Nil
  then show ?case by simp
next
  case (Cons x xs)
  obtain d' ps' where r: "dealRound (d, ps) = (d', ps')" by (cases "dealRound (d, ps)")
  from Cons.prems have le: "length ps \<le> length d" by (simp add: add_leD1)
  from deal_many[of "[0 ..< length ps]" ps d] le r
  have p: "table (d', ps') = table (d, ps)" "length d' = length d - length ps" "map pid ps' = map pid ps"
    by (simp_all add: dealRound_def)
  from p(3) have l: "length ps' = length ps" by (metis length_map)
  from Cons.prems p(2) l have "length ps' * length xs \<le> length d'" by simp
  from Cons.IH[OF this] p l r show ?case by (simp add: diff_diff_left[symmetric] del: diff_diff_left)
qed

lemma sorted_hands_tiles:
  "sum_list (map player_tiles (map (\<lambda>p. p\<lparr>hand := sortHand (hand p)\<rparr>) ps))
   = sum_list (map player_tiles ps)"
  by (induction ps) (simp_all add: player_tiles_def mset_sortHand)

lemma consistent_initGame: "consistent (initGame rnd)"
proof -
  define deck0 where "deck0 = shuffle rnd createDeck"
  define dealt where "dealt = foldl (\<lambda>st i. dealRound st) (deck0, initialPlayers) [0 ..< 13]"
  define dealt14 where "dealt14 = dealOne dealt 0"
  define ps where "ps = map (\<lambda>p. p\<lparr>hand := sortHand (hand p)\<rparr>) (snd dealt14)"
  define g where "g = \<lparr>deck = fst dealt14, players = ps, currentTurn = 0, lastDiscard = None,
             phase = Playing, winner = None, winType = None, logs = [txt_start],
             wallCount = length (fst dealt14)\<rparr>"
  have init: "initGame rnd = \<lparr>game = Some g, pendingActions = [], timers = []\<rparr>"
    unfolding initGame_def Let_def g_def ps_def dealt14_def dealt_def deck0_def ..
  have l0: "length deck0 = 136" and m0: "mset deck0 = mset createDeck"
    using shuffle_permutes[of rnd createDeck] length_createDeck by (simp_all add: deck0_def)
  have lp: "length initialPlayers = 4" by (simp add: initialPlayers_def)
  have "length initialPlayers * length [0 ..< (13::nat)] \<le> length deck0"
    unfolding l0 lp by simp
  from deal_rounds[OF this]
  have r: "table dealt = table (deck0, initialPlayers)"
    "length (fst dealt) = length deck0 - length initialPlayers * length [0 ..< (13::nat)]"
    "map pid (snd dealt) = map pid initialPlayers"
    unfolding dealt_def by blast+
  from r(2) have ne: "fst dealt \<noteq> []" unfolding l0 lp by auto
  from arg_cong[OF r(3), of length] lp have l1: "0 < length (snd dealt)" by simp
  from dealOne_props[OF ne l1]
  have d: "table dealt14 = table dealt" "map pid (snd dealt14) = map pid (snd dealt)"
    unfolding dealt14_def by simp_all
  have pids: "map pid ps = map pid initialPlayers"
    unfolding ps_def using d(2) r(3) by (simp add: comp_def)
  from arg_cong[OF pids, of length] lp have lps: "length ps = 4" by simp
  have "sum_list (map player_tiles ps) = sum_list (map player_tiles (snd dealt14))"
    unfolding ps_def by (rule sorted_hands_tiles)
  then have "all_tiles g = table dealt14" by (simp add: all_tiles_def table_def g_def)
  also have "\<dots> = table (deck0, initialPlayers)" using d(1) r(1) by simp
  also have "\<dots> = mset createDeck"
    using m0 by (simp add: table_def initialPlayers_def player_tiles_def)
  finally have tiles: "all_tiles g = mset createDeck" .
  have "pid (ps ! i) = i" if "i < 4" for i
  proof -
    from that lps have "pid (ps ! i) = map pid ps ! i" by simp
    also have "\<dots> = pid (initialPlayers ! i)" unfolding pids using that lp by simp
    also have "\<dots> = i"
      using that by (auto simp: initialPlayers_def less_Suc_eq numeral_eq_Suc)
    finally show ?thesis .
  qed
  with lps have so: "seats_ok g" by (simp add: seats_ok_def g_def)
  have "last_ok g" by (simp add: last_ok_def g_def)
  with so tiles show ?thesis
    unfolding init by (intro consistentI[of _ g]) (simp_all add: timers_ok_def)
qed

section \<open>A claim from an earlier render\<close>

text \<open>The end-game position holds the tiles of the deck, and so do the positions after it.\<close>

lemma deck_closed: "createDeck = map tile3 deck3"
  by code_simp

lemma position_tiles:
  "hand0 @ hand1 @ hand2 @ hand3 @ pile0 @ pile1 @ pile2 @ pile3 = map tile3 position3"
  by (simp add: hand0_def hand1_def hand2_def hand3_def hand3_after_def claimed_def pile0_def
      pile1_def pile2_def pile3_def position3_def tile3_def)

lemma position3_deck3: "mset position3 = mset deck3"
  by code_simp

lemma endgame_tiles:
  "mset hand0 + mset pile0 + (mset hand1 + mset pile1) + (mset hand2 + mset pile2)
     + (mset hand3 + mset pile3) = mset createDeck"
proof -
  have "mset (hand0 @ hand1 @ hand2 @ hand3 @ pile0 @ pile1 @ pile2 @ pile3)
        = image_mset tile3 (mset position3)"
    by (simp only: position_tiles mset_map)
  also have "\<dots> = mset createDeck"
    by (simp only: position3_deck3 deck_closed mset_map)
  finally show ?thesis by (simp add: ac_simps)
qed

lemma consistent_endgame: "consistent endgame"
proof (rule consistentI[of _ endgame_game])
  show "game endgame = Some endgame_game" by (simp add: endgame_def)
  show "seats_ok endgame_game"
    by (auto simp: seats_ok_def endgame_game_def less_Suc_eq numeral_eq_Suc initialPlayers_def
        seat_def)
  show "all_tiles endgame_game = mset createDeck"
    using endgame_tiles by (simp add: all_tiles_def player_tiles_def endgame_game_def ac_simps)
  show "last_ok endgame_game" by (simp add: last_ok_def endgame_game_def)
  show "pending_ok (pendingActions endgame) endgame_game" by (simp add: endgame_def)
  show "timers_ok (timers endgame)" by (simp add: endgame_def timers_ok_def)
qed

lemma claimed_id: "tid claimed = ''tile-19''"
  by code_simp

text \<open>
  C10 in the code: a claim made from an earlier render duplicates a tile and loses
  another. After seat 3's discard of the fourth 5 of Wan (tile-19) the AI response
  resolves seat 1's kong; deck, hands, piles and melds then hold exactly the tiles of
  \<open>createDeck\<close>. Seat 0's chow button of the action window is still mounted: its
  handler takes tile-19 from its own render and applies the chow to the new state. Now
  tile-19 is in seat 1's kong and in seat 0's chow, and the last tile of seat 3's pile, the
  fourth white dragon, is in no deck, hand, pile or meld.
\<close>

theorem stale_claim_duplicates_tile:
  "map_option all_tiles (game (aiResponse (aiTurn endgame))) = Some (mset createDeck)
   \<and> map_option (\<lambda>g. count (all_tiles g) claimed)
        (game (performAction (aiTurn endgame) (aiResponse (aiTurn endgame)) 0 Chow)) = Some 2
   \<and> map_option (\<lambda>g. count (all_tiles g) (tileOf Dragon 3 3))
        (game (performAction (aiTurn endgame) (aiResponse (aiTurn endgame)) 0 Chow)) = Some 0
   \<and> count (mset createDeck) claimed = 1 \<and> count (mset createDeck) (tileOf Dragon 3 3) = 1
   \<and> tid claimed = ''tile-19''"
proof -
  let ?g' = "resolveAction claimed 3 0 Chow after_kong_game"
  have "consistent (aiResponse (aiTurn endgame))"
    by (intro consistent_aiResponse consistent_aiTurn consistent_endgame)
  then have before: "all_tiles after_kong_game = mset createDeck"
    unfolding stage1 stage2 by (auto simp: consistent_def after_kong_def)
  have after: "game (performAction window after_kong 0 Chow) = Some ?g'"
    by (simp add: performAction_def window_def window_game_def after_kong_def)
  have pl: "length (players after_kong_game) = 4" "discards (players after_kong_game ! 3) = pile3"
    by (simp_all add: after_kong_game_def window_game_def endgame_game_def)
  have l: "pile3 \<noteq> []" "last pile3 = tileOf Dragon 3 3"
    by (simp_all add: pile3_def)
  from resolveAction_tiles[of 0 after_kong_game 3 Chow claimed] pl l before
  have eq: "all_tiles ?g' + {#tileOf Dragon 3 3#} = mset createDeck + {#claimed#}" by simp
  have "distinct createDeck"
    using deck_ids_distinct by (simp add: distinct_map)
  then have one: "count (mset createDeck) x = (if x \<in> set createDeck then 1 else 0)" for x
    by (simp add: distinct_count_atmost_1)
  have "claimed \<in># mset hand3" "tileOf Dragon 3 3 \<in># mset pile3"
    by (simp_all add: hand3_def pile3_def)
  then have "claimed \<in># mset createDeck" "tileOf Dragon 3 3 \<in># mset createDeck"
    unfolding endgame_tiles[symmetric] by simp_all
  then have c: "count (mset createDeck) claimed = 1" "count (mset createDeck) (tileOf Dragon 3 3) = 1"
    by (simp_all add: one)
  have ne: "claimed \<noteq> tileOf Dragon 3 3"
    by (simp add: claimed_def tileOf_def)
  from arg_cong[OF eq, of "\<lambda>M. count M claimed"] c(1) ne
  have 1: "count (all_tiles ?g') claimed = 2" by simp
  from arg_cong[OF eq, of "\<lambda>M. count M (tileOf Dragon 3 3)"] c(2) ne
  have 2: "count (all_tiles ?g') (tileOf Dragon 3 3) = 0" by simp
  show ?thesis
    unfolding stage1 stage2 using before after 1 2 c claimed_id
    by (simp add: after_kong_def)
qed

end
